theory Spec2Isabelle
  imports
    Main
    "HOL-Library.AList"
    "HOL-Library.Char_ord"
    "HOL-Library.List_Lexorder"
    "HOL-Library.Product_Lexorder"
begin

section \<open>The package command of the dream2nix command line\<close>

text \<open>
  This theory embeds \<^verbatim>\<open>PackageCommand.handle\<close> of
  \<^verbatim>\<open>src/apps/cli/commands/package.py\<close>: the handling of the translator's extra
  arguments, the check of the output directory, the stamping of the translator's
  parameters, the cleanup of the dependency graph, the removal of cyclic dependencies,
  the combined hash, the writing of \<^verbatim>\<open>dream-lock.json\<close> and the creation of
  \<^verbatim>\<open>default.nix\<close>. Python dictionaries keep their insertion order, and
  the command iterates over them, so a dictionary is an association list with distinct
  keys: \<open>AList.update\<close> is the assignment \<^verbatim>\<open>d[k] = v\<close> (in place for a known
  key, at the end for a new one), \<open>map_of\<close> the lookup.
\<close>

subsection \<open>Errors\<close>

text \<open>
  Every \<^verbatim>\<open>exit(1)\<close> and every exception of the command is a value of this type.
\<close>

datatype error =
    InvalidExtraArgs "string list"
  | MissingExtraArgs "string list"
  | OutputExists
  | NixFailed
  | TranslatorFailed
  | CouldNotFindFODHash
  | LockInvalid
  | NetworkXError
  | IndexError
  | KeyError

subsection \<open>Strings\<close>

text \<open>\<^verbatim>\<open>str.split(sep)\<close> for a separator of one character.\<close>

fun split_on :: "char \<Rightarrow> string \<Rightarrow> string list" where
  "split_on c [] = [[]]"
| "split_on c (x # xs) =
     (if x = c then [] # split_on c xs
      else (case split_on c xs of
              w # ws \<Rightarrow> (x # w) # ws
            | [] \<Rightarrow> [[x]]))"

text \<open>\<^verbatim>\<open>sep.join(xs)\<close>, for lists of any kind.\<close>

fun join :: "'a list \<Rightarrow> 'a list list \<Rightarrow> 'a list" where
  "join sep [] = []"
| "join sep [x] = x"
| "join sep (x # y # ys) = x @ sep @ join sep (y # ys)"

text \<open>\<^verbatim>\<open>str.lower()\<close> on the letters A to Z; every other character is kept.\<close>

definition lower_char :: "char \<Rightarrow> char" where
  "lower_char c =
     (case map_of (zip ''ABCDEFGHIJKLMNOPQRSTUVWXYZ'' ''abcdefghijklmnopqrstuvwxyz'') c of
        Some d \<Rightarrow> d
      | None \<Rightarrow> c)"

definition lower :: "string \<Rightarrow> string" where
  "lower s = map lower_char s"

subsection \<open>Extra arguments of the translator\<close>

text \<open>
  A translator as \<^verbatim>\<open>list_translators_for_source\<close> describes it: its identity and
  the extra arguments it declares, each with a type (\<^verbatim>\<open>flag\<close> or another) and
  possibly a default.
\<close>

record extra_arg =
  arg_type :: string
  arg_default :: "string option"

record translator =
  subsystem :: string
  ttype :: string
  tname :: string
  extraArgs :: "(string \<times> extra_arg) list"

text \<open>
  A value of \<^verbatim>\<open>specified_extra_args\<close>: the text given on the command line, or
  the boolean a flag was transformed to.
\<close>

datatype argval = VStr string | VBool bool

text \<open>
  Lines 56 to 61: each \<^verbatim>\<open>--arg\<close> is split at every \<^verbatim>\<open>=\<close>; the first two
  pieces are the key and the value. An argument with no \<^verbatim>\<open>=\<close> raises IndexError.
\<close>

fun parse_extra_args ::
  "string list \<Rightarrow> (string \<times> string) list \<Rightarrow> error + (string \<times> string) list" where
  "parse_extra_args [] acc = Inr acc"
| "parse_extra_args (e # es) acc =
     (case split_on CHR ''='' e of
        k # v # _ \<Rightarrow> parse_extra_args es (AList.update k v acc)
      | _ \<Rightarrow> Inl IndexError)"

text \<open>
  Line 167: the specified names that the translator does not declare. The source takes a
  difference of sets; the list keeps the order of the command line.
\<close>

definition unknown_extra_args :: "translator \<Rightarrow> (string \<times> string) list \<Rightarrow> string list" where
  "unknown_extra_args t specified =
     filter (\<lambda>k. k \<notin> set (map fst (extraArgs t))) (map fst specified)"

text \<open>Lines 180 and 182: the recognised spellings of a flag.\<close>

definition flag_of_text :: "string \<Rightarrow> bool option" where
  "flag_of_text s =
     (if lower s \<in> set [''yes'', ''y'', ''true''] then Some True
      else if lower s \<in> set [''no'', ''n'', ''false''] then Some False
      else None)"

text \<open>
  Lines 178 to 188: the loop runs over a copy of the specified arguments and assigns the
  boolean of each flag. For a flag whose text is not recognised the source prints a line
  on the standard error and goes on; the printed lines are the second component.
\<close>

fun transform_flags ::
  "translator \<Rightarrow> (string \<times> string) list \<Rightarrow> (string \<times> argval) list \<times> string list \<Rightarrow>
   error + (string \<times> argval) list \<times> string list" where
  "transform_flags t [] st = Inr st"
| "transform_flags t ((argName, argVal) # items) (args, err) =
     (case map_of (extraArgs t) argName of
        None \<Rightarrow> Inl KeyError
      | Some a \<Rightarrow>
          if arg_type a = ''flag'' then
            (case flag_of_text argVal of
               Some b \<Rightarrow> transform_flags t items (AList.update argName (VBool b) args, err)
             | None \<Rightarrow>
                 transform_flags t items
                   (args, err @ [''Invalid value '' @ argVal @ '' for argument '' @ argName]))
          else transform_flags t items (args, err))"

text \<open>\<^verbatim>\<open>bool(v)\<close>: a string is true when it is not empty.\<close>

fun py_bool :: "argval \<Rightarrow> bool" where
  "py_bool (VBool b) = b"
| "py_bool (VStr s) = (s \<noteq> [])"

text \<open>Lines 190 to 192: every value of a flag goes through \<^verbatim>\<open>bool\<close>.\<close>

fun coerce_flags :: "translator \<Rightarrow> (string \<times> argval) list \<Rightarrow> error + (string \<times> argval) list" where
  "coerce_flags t [] = Inr []"
| "coerce_flags t ((k, v) # items) =
     (case map_of (extraArgs t) k of
        None \<Rightarrow> Inl KeyError
      | Some a \<Rightarrow>
          (case coerce_flags t items of
             Inl e \<Rightarrow> Inl e
           | Inr items' \<Rightarrow>
               Inr ((k, if arg_type a = ''flag'' then VBool (py_bool v) else v) # items')))"

text \<open>
  Lines 195 to 200: in a session that is not interactive, every declared argument that
  is not specified and has a default is assumed: a flag as true, another as its default.
\<close>

definition assume_defaults :: "translator \<Rightarrow> (string \<times> argval) list \<Rightarrow> (string \<times> argval) list" where
  "assume_defaults t args =
     fold (\<lambda>(n, v) acc. AList.update n (if arg_type v = ''flag'' then VBool True
                                           else VStr (the (arg_default v))) acc)
       (filter (\<lambda>(n, v). n \<notin> set (map fst args) \<and> arg_default v \<noteq> None) (extraArgs t))
       args"

text \<open>
  Lines 166 to 229, from the parsed arguments to the arguments handed to the translator.
  \<open>Inl\<close> is the \<^verbatim>\<open>exit(1)\<close> (or the exception) that ends the command before the
  translator runs; \<open>Inr\<close> carries the arguments the translator is called with and the
  lines printed on the standard error. In an interactive session the answers of the user
  to the prompts for the unspecified arguments are the parameter \<open>ask\<close>.
\<close>

definition extra_args_stage ::
  "bool \<Rightarrow> (string \<Rightarrow> argval) \<Rightarrow> translator \<Rightarrow> (string \<times> string) list \<Rightarrow>
   error + (string \<times> argval) list \<times> string list" where
  "extra_args_stage interactive ask t specified =
     (if unknown_extra_args t specified \<noteq> [] then
        Inl (InvalidExtraArgs (unknown_extra_args t specified))
      else
        (case transform_flags t specified (map (\<lambda>(k, v). (k, VStr v)) specified, []) of
           Inl e \<Rightarrow> Inl e
         | Inr (args, err) \<Rightarrow>
             (case coerce_flags t args of
                Inl e \<Rightarrow> Inl e
              | Inr args1 \<Rightarrow>
                  let args2 = (if interactive then args1 else assume_defaults t args1);
                      unspecified = filter (\<lambda>n. n \<notin> set (map fst args2)) (map fst (extraArgs t))
                  in if unspecified = [] then Inr (args2, err)
                     else if \<not> interactive then Inl (MissingExtraArgs unspecified)
                     else Inr (fold (\<lambda>n acc. AList.update n (ask n) acc) unspecified args2, err))))"

text \<open>Lines 56 to 229: the arguments of the command line, parsed and then checked.\<close>

definition handle_extra_args ::
  "bool \<Rightarrow> (string \<Rightarrow> argval) \<Rightarrow> translator \<Rightarrow> string list \<Rightarrow>
   error + (string \<times> argval) list \<times> string list" where
  "handle_extra_args interactive ask t raw =
     (case parse_extra_args raw [] of
        Inl e \<Rightarrow> Inl e
      | Inr specified \<Rightarrow> extra_args_stage interactive ask t specified)"

subsection \<open>The translator's parameters\<close>

text \<open>Line 266: the identity of the translator, the value of \<^verbatim>\<open>translatedBy\<close>.\<close>

definition translator_identity :: "translator \<Rightarrow> string" where
  "translator_identity t = subsystem t @ ''.'' @ ttype t @ ''.'' @ tname t"

text \<open>An f-string prints a boolean as \<^verbatim>\<open>True\<close> or \<^verbatim>\<open>False\<close>.\<close>

fun str_of_argval :: "argval \<Rightarrow> string" where
  "str_of_argval (VStr s) = s"
| "str_of_argval (VBool b) = (if b then ''True'' else ''False'')"

text \<open>
  Lines 267 to 274, the value of \<^verbatim>\<open>translatorParams\<close>. The extra arguments are taken as \<^verbatim>\<open>specified_extra_args.items()\<close>
  gives them: in the order of insertion.
\<close>

definition translator_params :: "translator \<Rightarrow> bool \<Rightarrow> (string \<times> argval) list \<Rightarrow> string" where
  "translator_params t combined args =
     join '' ''
       ([''--translator'', subsystem t @ ''.'' @ ttype t @ ''.'' @ tname t]
        @ (if combined then [''--combined''] else [])
        @ map (\<lambda>(n, v). ''--arg '' @ n @ ''='' @ str_of_argval v) args)"

text \<open>
  The parameters as section 4.3 of the specification words them: the same string with
  the extra arguments iterated in the sorted order of their keys.
\<close>

definition spec_translator_params :: "translator \<Rightarrow> bool \<Rightarrow> (string \<times> argval) list \<Rightarrow> string" where
  "spec_translator_params t combined args = translator_params t combined (sort_key fst args)"

subsection \<open>The directed graph of networkx\<close>

text \<open>
  Line 306 builds \<^verbatim>\<open>nx.DiGraph(sorted(list(edges)))\<close>. A \<^verbatim>\<open>DiGraph\<close> keeps
  the dictionary \<^verbatim>\<open>_succ\<close> (also named \<^verbatim>\<open>_adj\<close>) from every node to the
  dictionary of its successors; both keep the order of insertion. The model is that
  dictionary: the list of the nodes, each with the list of its successors.
\<close>

type_synonym 'n digraph = "('n \<times> 'n list) list"

text \<open>
  \<^verbatim>\<open>G.edges(node)\<close> gives the edges that leave a node in the order of its
  successors, and none for a value that is not a node.
\<close>

definition succs :: "'n digraph \<Rightarrow> 'n \<Rightarrow> 'n list" where
  "succs G u = (case map_of G u of Some vs \<Rightarrow> vs | None \<Rightarrow> [])"

text \<open>
  \<^verbatim>\<open>add_edges_from\<close>, for each pair \<^verbatim>\<open>(u, v)\<close>: a node that is not yet in the
  graph is added with no successor, then \<^verbatim>\<open>_succ[u][v]\<close> is assigned, which keeps the
  place of a successor that is already there.
\<close>

definition add_node :: "'n \<Rightarrow> 'n digraph \<Rightarrow> 'n digraph" where
  "add_node n G = (if n \<in> fst ` set G then G else G @ [(n, [])])"

definition add_edge :: "'n \<times> 'n \<Rightarrow> 'n digraph \<Rightarrow> 'n digraph" where
  "add_edge e G =
     (let G1 = add_node (snd e) (add_node (fst e) G)
      in if snd e \<in> set (succs G1 (fst e)) then G1
         else AList.update (fst e) (succs G1 (fst e) @ [snd e]) G1)"

definition DiGraph :: "('n \<times> 'n) list \<Rightarrow> 'n digraph" where
  "DiGraph edges = fold add_edge edges []"

text \<open>
  \<^verbatim>\<open>G.remove_edge(u, v)\<close> deletes \<^verbatim>\<open>_succ[u][v]\<close> and raises
  \<^verbatim>\<open>NetworkXError\<close> when the edge is not in the graph. The nodes stay.
\<close>

definition remove_edge :: "'n \<Rightarrow> 'n \<Rightarrow> 'n digraph \<Rightarrow> error + 'n digraph" where
  "remove_edge u v G =
     (if v \<in> set (succs G u) then Inr (AList.update u (removeAll v (succs G u)) G)
      else Inl NetworkXError)"

definition number_of_edges :: "'n digraph \<Rightarrow> nat" where
  "number_of_edges G = sum_list (map (\<lambda>p. length (snd p)) G)"

subsection \<open>The generator \<^verbatim>\<open>edge_dfs\<close> of networkx\<close>

text \<open>
  \<^verbatim>\<open>nx.find_cycle(G, key)\<close> consumes the generator \<^verbatim>\<open>nx.edge_dfs(G, start_node)\<close>,
  whose body for a directed graph and one start node is
  \<^verbatim>\<open>
    visited_edges = set(); visited_nodes = set(); edges = {}
    stack = [start_node]
    while stack:
        current_node = stack[-1]
        if current_node not in visited_nodes:
            edges[current_node] = iter(G.edges(current_node))
            visited_nodes.add(current_node)
        try:
            edge = next(edges[current_node])
        except StopIteration:
            stack.pop()
        else:
            if edge not in visited_edges:
                visited_edges.add(edge)
                stack.append(edge[1])
                yield edge
  \<close>
  The state of the generator is a record of its four variables. The stack has its top
  first; an iterator over the edges of a node is the list of the successors it has not
  given yet.
\<close>

record 'n edge_dfs_state =
  stack :: "'n list"
  visited_edges :: "('n \<times> 'n) set"
  visited_nodes :: "'n set"
  edges_it :: "('n \<times> 'n list) list"

text \<open>
  One call of \<^verbatim>\<open>next\<close> on the generator: the edge it yields with the state it is
  suspended in, the end of the generator, or an exception.
\<close>

datatype 'n generated = Yield "'n \<times> 'n" "'n edge_dfs_state" | StopIteration | Raise error

text \<open>The first visit of the node on top of the stack creates its iterator.\<close>

definition visit :: "'n digraph \<Rightarrow> 'n \<Rightarrow> 'n edge_dfs_state \<Rightarrow> 'n edge_dfs_state" where
  "visit G current_node st =
     (if current_node \<notin> visited_nodes st
      then st\<lparr>edges_it := AList.update current_node (succs G current_node) (edges_it st),
              visited_nodes := insert current_node (visited_nodes st)\<rparr>
      else st)"

text \<open>
  The loop ends: every turn either pops the stack or takes a successor from an iterator,
  and the iterators are created once for a node. The measure counts twice the successors
  still to be given (those of the iterators, and those of the nodes not visited yet) and
  the height of the stack.
\<close>

definition unvisited_size :: "'n digraph \<Rightarrow> 'n set \<Rightarrow> nat" where
  "unvisited_size G V = sum_list (map (\<lambda>p. if fst p \<in> V then 0 else length (snd p)) G)"

definition iters_size :: "('n \<times> 'n list) list \<Rightarrow> nat" where
  "iters_size its = sum_list (map (\<lambda>p. length (snd p)) its)"

definition edge_dfs_size :: "'n digraph \<Rightarrow> 'n edge_dfs_state \<Rightarrow> nat" where
  "edge_dfs_size G st =
     2 * (iters_size (edges_it st) + unvisited_size G (visited_nodes st)) + length (stack st)"

lemma iters_size_update_le:
  "iters_size (AList.update k vs its) \<le> iters_size its + length vs"
  by (induction its) (auto simp: iters_size_def)

lemma iters_size_update_less:
  "map_of its k = Some (v # vs) \<Longrightarrow> Suc (iters_size (AList.update k vs its)) = iters_size its"
  by (induction its) (auto simp: iters_size_def)

lemma unvisited_size_mono:
  "unvisited_size G (insert u V) \<le> unvisited_size G V"
  unfolding unvisited_size_def by (induction G) auto

lemma unvisited_size_insert:
  "u \<notin> V \<Longrightarrow> unvisited_size G (insert u V) + length (succs G u) \<le> unvisited_size G V"
proof (induction G)
  case Nil
  then show ?case by (simp add: unvisited_size_def succs_def)
next
  case (Cons p G)
  have m: "unvisited_size G (insert u V) \<le> unvisited_size G V" by (rule unvisited_size_mono)
  show ?case
  proof (cases "fst p = u")
    case True
    then have "succs (p # G) u = snd p" by (cases p) (simp add: succs_def)
    with True Cons.prems m show ?thesis by (simp add: unvisited_size_def)
  next
    case False
    then have "succs (p # G) u = succs G u" by (cases p) (simp add: succs_def)
    with False Cons show ?thesis by (simp add: unvisited_size_def)
  qed
qed

lemma visit_size: "edge_dfs_size G (visit G u st) \<le> edge_dfs_size G st"
proof (cases "u \<in> visited_nodes st")
  case True
  then show ?thesis by (simp add: visit_def)
next
  case False
  from iters_size_update_le [of u "succs G u" "edges_it st"]
    unvisited_size_insert [OF False, of G]
  show ?thesis using False by (simp add: visit_def edge_dfs_size_def)
qed

lemma visit_stack [simp]: "stack (visit G u st) = stack st"
  by (simp add: visit_def)

text \<open>
  The body of the generator up to its next \<^verbatim>\<open>yield\<close>. The lookup
  \<^verbatim>\<open>edges[current_node]\<close> raises KeyError for a node with no iterator.
\<close>

function edge_dfs_next :: "'n digraph \<Rightarrow> 'n edge_dfs_state \<Rightarrow> 'n generated" where
  "edge_dfs_next G st =
     (case stack st of
        [] \<Rightarrow> StopIteration
      | current_node # rest \<Rightarrow>
          (case map_of (edges_it (visit G current_node st)) current_node of
             None \<Rightarrow> Raise KeyError
           | Some [] \<Rightarrow> edge_dfs_next G ((visit G current_node st)\<lparr>stack := rest\<rparr>)
           | Some (v # vs) \<Rightarrow>
               if (current_node, v) \<notin> visited_edges (visit G current_node st)
               then Yield (current_node, v)
                      ((visit G current_node st)
                         \<lparr>edges_it := AList.update current_node vs (edges_it (visit G current_node st)),
                          visited_edges := insert (current_node, v) (visited_edges (visit G current_node st)),
                          stack := v # current_node # rest\<rparr>)
               else edge_dfs_next G
                      ((visit G current_node st)
                         \<lparr>edges_it := AList.update current_node vs (edges_it (visit G current_node st))\<rparr>)))"
  by pat_completeness auto
termination
proof (relation "measure (\<lambda>(G, st). edge_dfs_size G st)", goal_cases)
  case 1
  show ?case by simp
next
  case (2 G st current_node rest vs)
  from visit_size [of G current_node st] 2(1)
  show ?case by (simp add: edge_dfs_size_def)
next
  case (3 G st current_node rest x v vs)
  from visit_size [of G current_node st] iters_size_update_less [OF 3(2) [unfolded 3(3)]]
  show ?case by (simp add: edge_dfs_size_def)
qed

declare edge_dfs_next.simps [simp del]

lemma edge_dfs_next_size:
  "edge_dfs_next G st = Yield e st' \<Longrightarrow> edge_dfs_size G st' < edge_dfs_size G st"
proof (induction G st rule: edge_dfs_next.induct)
  case (1 G st)
  show ?case
  proof (cases "stack st")
    case Nil
    with "1.prems" show ?thesis by (simp add: edge_dfs_next.simps [of G st])
  next
    case (Cons current_node rest)
    let ?st1 = "visit G current_node st"
    have le: "edge_dfs_size G ?st1 \<le> edge_dfs_size G st" by (rule visit_size)
    show ?thesis
    proof (cases "map_of (edges_it ?st1) current_node")
      case None
      with Cons "1.prems" show ?thesis by (simp add: edge_dfs_next.simps [of G st])
    next
      case (Some it)
      show ?thesis
      proof (cases it)
        case Nil
        with Cons Some "1.prems" have "edge_dfs_next G (?st1\<lparr>stack := rest\<rparr>) = Yield e st'"
          by (simp add: edge_dfs_next.simps [of G st])
        from "1.IH"(1) [OF Cons Some Nil this] le Cons
        show ?thesis by (simp add: edge_dfs_size_def)
      next
        case (Cons v vs)
        note it = this
        from iters_size_update_less [OF Some [unfolded it]]
        have sz: "Suc (iters_size (AList.update current_node vs (edges_it ?st1)))
                    = iters_size (edges_it ?st1)" .
        show ?thesis
        proof (cases "(current_node, v) \<in> visited_edges ?st1")
          case True
          with \<open>stack st = current_node # rest\<close> Some it "1.prems"
          have "edge_dfs_next G (?st1\<lparr>edges_it := AList.update current_node vs (edges_it ?st1)\<rparr>)
                  = Yield e st'"
            by (simp add: edge_dfs_next.simps [of G st])
          from "1.IH"(2) [OF \<open>stack st = current_node # rest\<close> Some it _ this] True le sz
          show ?thesis by (simp add: edge_dfs_size_def)
        next
          case False
          with \<open>stack st = current_node # rest\<close> Some it "1.prems"
          have "st' = ?st1\<lparr>edges_it := AList.update current_node vs (edges_it ?st1),
                          visited_edges := insert (current_node, v) (visited_edges ?st1),
                          stack := v # current_node # rest\<rparr>"
            by (auto simp: edge_dfs_next.simps [of G st])
          with le sz \<open>stack st = current_node # rest\<close> show ?thesis
            by (auto simp: edge_dfs_size_def)
        qed
      qed
    qed
  qed
qed

subsection \<open>\<^verbatim>\<open>find_cycle\<close> of networkx\<close>

text \<open>
  \<^verbatim>\<open>nx.find_cycle(G, source)\<close> with the original orientation:
  \<^verbatim>\<open>
    explored = set(); cycle = []; final_node = None
    for start_node in G.nbunch_iter(source):
        if start_node in explored: continue
        edges = []
        seen = {start_node}
        active_nodes = {start_node}
        previous_head = None
        for edge in nx.edge_dfs(G, start_node, orientation):
            tail, head = tailhead(edge)
            if head in explored: continue
            if previous_head is not None and tail != previous_head:
                while True:
                    try:
                        popped_edge = edges.pop()
                    except IndexError:
                        edges = []
                        active_nodes = {tail}
                        break
                    else:
                        popped_head = tailhead(popped_edge)[1]
                        active_nodes.remove(popped_head)
                    if edges:
                        last_head = tailhead(edges[-1])[1]
                        if tail == last_head: break
            edges.append(edge)
            if head in active_nodes:
                cycle.extend(edges); final_node = head
                break
            else:
                seen.add(head); active_nodes.add(head); previous_head = head
        if cycle: break
        else: explored.update(seen)
    else:
        raise nx.exception.NetworkXNoCycle("No cycle found.")
    for i, edge in enumerate(cycle):
        tail, head = tailhead(edge)
        if tail == final_node: break
    return cycle[i:]
  \<close>
  The variables of the inner loop are a record; the list \<^verbatim>\<open>edges\<close> is kept with its
  last element first.
\<close>

record 'n find_cycle_state =
  path_edges :: "('n \<times> 'n) list"
  seen :: "'n set"
  active_nodes :: "'n set"
  previous_head :: "'n option"

text \<open>What \<^verbatim>\<open>find_cycle\<close> returns or raises.\<close>

datatype 'n cycle_result = Cycle "('n \<times> 'n) list" | NetworkXNoCycle | Raised error

text \<open>
  The \<^verbatim>\<open>while True\<close> loop that pops the edges left behind by the search. Removing
  from \<^verbatim>\<open>active_nodes\<close> a node that is not in it raises KeyError.
\<close>

fun backtrack ::
  "'n \<Rightarrow> ('n \<times> 'n) list \<Rightarrow> 'n set \<Rightarrow> error + ('n \<times> 'n) list \<times> 'n set" where
  "backtrack tail [] active = Inr ([], {tail})"
| "backtrack tail (popped_edge # edges) active =
     (if snd popped_edge \<notin> active then Inl KeyError
      else if edges \<noteq> [] \<and> tail = snd (hd edges) then Inr (edges, active - {snd popped_edge})
      else backtrack tail edges (active - {snd popped_edge}))"

text \<open>
  The last loop: the edges before the first one that leaves \<^verbatim>\<open>final_node\<close> are
  dropped; when no edge leaves it, \<^verbatim>\<open>i\<close> is the last index.
\<close>

definition trim_cycle :: "'n \<Rightarrow> ('n \<times> 'n) list \<Rightarrow> ('n \<times> 'n) list" where
  "trim_cycle final_node cycle =
     (if dropWhile (\<lambda>edge. fst edge \<noteq> final_node) cycle = [] then [last cycle]
      else dropWhile (\<lambda>edge. fst edge \<noteq> final_node) cycle)"

text \<open>The loop over the edges of the generator.\<close>

function find_cycle_loop ::
  "'n digraph \<Rightarrow> 'n set \<Rightarrow> 'n edge_dfs_state \<Rightarrow> 'n find_cycle_state \<Rightarrow> 'n cycle_result" where
  "find_cycle_loop G explored gen fc =
     (case edge_dfs_next G gen of
        StopIteration \<Rightarrow> NetworkXNoCycle
      | Raise e \<Rightarrow> Raised e
      | Yield edge gen' \<Rightarrow>
          if snd edge \<in> explored then find_cycle_loop G explored gen' fc
          else
            (case (if previous_head fc \<noteq> None \<and> Some (fst edge) \<noteq> previous_head fc
                   then backtrack (fst edge) (path_edges fc) (active_nodes fc)
                   else Inr (path_edges fc, active_nodes fc)) of
               Inl e \<Rightarrow> Raised e
             | Inr (edges, active) \<Rightarrow>
                 if snd edge \<in> active then Cycle (trim_cycle (snd edge) (rev (edge # edges)))
                 else find_cycle_loop G explored gen'
                        \<lparr>path_edges = edge # edges, seen = insert (snd edge) (seen fc),
                         active_nodes = insert (snd edge) active,
                         previous_head = Some (snd edge)\<rparr>))"
  by pat_completeness auto
termination
  by (relation "measure (\<lambda>(G, explored, gen, fc). edge_dfs_size G gen)")
     (auto dest: edge_dfs_next_size)

declare find_cycle_loop.simps [simp del]

text \<open>
  The command calls \<^verbatim>\<open>find_cycle\<close> with one node as the source. For a node of the
  graph the outer loop has this one start node, and \<^verbatim>\<open>explored\<close> is empty. A key
  that is not a node of the graph (a version with no dependency that nothing depends on) is a tuple
  of two strings, which \<^verbatim>\<open>nbunch_iter\<close> then reads as a collection of nodes; a string
  is never a node, so there is no start node and \<^verbatim>\<open>NetworkXNoCycle\<close> is raised.
\<close>

definition find_cycle :: "'n digraph \<Rightarrow> 'n \<Rightarrow> 'n cycle_result" where
  "find_cycle G source =
     (if source \<in> fst ` set G
      then find_cycle_loop G {}
             \<lparr>stack = [source], visited_edges = {}, visited_nodes = {}, edges_it = []\<rparr>
             \<lparr>path_edges = [], seen = {source}, active_nodes = {source}, previous_head = None\<rparr>
      else NetworkXNoCycle)"

subsection \<open>Removing the cyclic dependencies\<close>

lemma number_of_edges_update:
  "map_of G u = Some vs \<Longrightarrow>
   number_of_edges (AList.update u ws G) + length vs = number_of_edges G + length ws"
  by (induction G) (auto simp: number_of_edges_def)

lemma length_removeAll_less: "v \<in> set vs \<Longrightarrow> length (removeAll v vs) < length vs"
  by (induction vs) (auto simp: less_Suc_eq_le)

lemma remove_edge_less:
  assumes "remove_edge u v G = Inr G'"
  shows "number_of_edges G' < number_of_edges G"
proof -
  from assms have v: "v \<in> set (succs G u)" and G': "G' = AList.update u (removeAll v (succs G u)) G"
    by (auto simp: remove_edge_def split: if_splits)
  from v obtain vs where m: "map_of G u = Some vs" and s: "succs G u = vs"
    by (cases "map_of G u") (auto simp: succs_def)
  from number_of_edges_update [OF m, of "removeAll v vs"] length_removeAll_less [of v vs] v s G'
  show ?thesis by simp
qed

text \<open>
  Lines 312 to 321, for one key: as long as \<^verbatim>\<open>find_cycle\<close> returns a cycle, its last
  edge is removed from the graph and appended to \<^verbatim>\<open>removed_edges\<close>;
  \<^verbatim>\<open>NetworkXNoCycle\<close> ends the loop. Every other exception ends the command.
\<close>

function break_cycles ::
  "'n digraph \<Rightarrow> 'n \<Rightarrow> ('n \<times> 'n) list \<Rightarrow> error + 'n digraph \<times> ('n \<times> 'n) list" where
  "break_cycles G key removed_edges =
     (case find_cycle G key of
        NetworkXNoCycle \<Rightarrow> Inr (G, removed_edges)
      | Raised e \<Rightarrow> Inl e
      | Cycle cycle \<Rightarrow>
          (case cycle of
             [] \<Rightarrow> Inl IndexError
           | _ # _ \<Rightarrow>
               (case remove_edge (fst (last cycle)) (snd (last cycle)) G of
                  Inl e \<Rightarrow> Inl e
                | Inr G' \<Rightarrow> break_cycles G' key (removed_edges @ [last cycle]))))"
  by pat_completeness auto
termination
  by (relation "measure (\<lambda>(G, key, removed_edges). number_of_edges G)")
     (auto dest: remove_edge_less)

declare break_cycles.simps [simp del]

text \<open>Lines 309 to 321: the keys in turn.\<close>

fun remove_cycles ::
  "'n list \<Rightarrow> 'n digraph \<Rightarrow> ('n \<times> 'n) list \<Rightarrow> error + 'n digraph \<times> ('n \<times> 'n) list" where
  "remove_cycles [] G removed_edges = Inr (G, removed_edges)"
| "remove_cycles (key # keys) G removed_edges =
     (case break_cycles G key removed_edges of
        Inl e \<Rightarrow> Inl e
      | Inr (G', removed_edges') \<Rightarrow> remove_cycles keys G' removed_edges')"

subsection \<open>The lock\<close>

text \<open>
  The lock is the dictionary that \<^verbatim>\<open>json.load\<close> reads from the file the translator
  wrote. Its parts that the command works on are typed as the schema of the lock has
  them: a node of the dependency graph is a package name with a version, the value of
  \<^verbatim>\<open>tuple(dep)\<close> for a dependency \<^verbatim>\<open>[name, version]\<close>; a key that may be absent
  is an option.
\<close>

type_synonym node = "string \<times> string"

type_synonym dependency_map = "(string \<times> (string \<times> node list) list) list"

type_synonym source_spec = "(string \<times> string) list"

record generic_metadata =
  mainPackageName :: string
  mainPackageVersion :: string
  translatedBy :: "string option"
  translatorParams :: "string option"
  dependencies :: "dependency_map option"
  sourcesCombinedHash :: "string option"

record lock =
  generic :: generic_metadata
  sources :: "(string \<times> (string \<times> source_spec) list) list"
  cyclicDependencies :: "dependency_map option"

text \<open>Lines 265 to 274: the translator and its parameters are written to the lock.\<close>

definition write_translator_info ::
  "translator \<Rightarrow> bool \<Rightarrow> (string \<times> argval) list \<Rightarrow> lock \<Rightarrow> lock" where
  "write_translator_info t combined args lock =
     lock\<lparr>generic := (generic lock)
       \<lparr>translatedBy := Some (translator_identity t),
        translatorParams := Some (translator_params t combined args)\<rparr>\<rparr>"

text \<open>
  Lines 277 to 289: the source of the main package, or the type \<^verbatim>\<open>unknown\<close> when
  there is no source specification, overwrites the entry of the main package.
\<close>

definition add_main_source :: "source_spec \<Rightarrow> lock \<Rightarrow> lock" where
  "add_main_source sourceSpec lock =
     (let mainSource = (if sourceSpec = [] then [(''type'', ''unknown'')] else sourceSpec)
      in lock\<lparr>sources :=
           (case map_of (sources lock) (mainPackageName (generic lock)) of
              None \<Rightarrow>
                AList.update (mainPackageName (generic lock))
                  [(mainPackageVersion (generic lock), mainSource)] (sources lock)
            | Some versions \<Rightarrow>
                AList.update (mainPackageName (generic lock))
                  (AList.update (mainPackageVersion (generic lock)) mainSource versions)
                  (sources lock))\<rparr>)"

subsection \<open>The cleanup of the dependency graph\<close>

text \<open>
  Lines 296 to 298: the loop runs over a copy of the dependency graph and deletes every
  key whose value is empty. The values of the dependency graph are the dictionaries from
  the versions of a package to their dependencies.
\<close>

definition remove_empty_entries :: "dependency_map \<Rightarrow> dependency_map" where
  "remove_empty_entries depGraph =
     fold (\<lambda>(pname, deps) g. if deps = [] then AList.delete pname g else g) depGraph depGraph"

text \<open>Lines 301 to 305: the edges of the dependency graph.\<close>

definition graph_edges :: "dependency_map \<Rightarrow> (node \<times> node) list" where
  "graph_edges depGraph =
     concat (map (\<lambda>(pname, versions).
       concat (map (\<lambda>(version, deps). map (\<lambda>dep. ((pname, version), dep)) deps) versions))
       depGraph)"

text \<open>Lines 309 to 311: the keys in the order of the two loops.\<close>

definition graph_keys :: "dependency_map \<Rightarrow> node list" where
  "graph_keys depGraph =
     concat (map (\<lambda>(pname, versions). map (\<lambda>(version, deps). (pname, version)) versions) depGraph)"

text \<open>
  Lines 301 to 321: the graph is built from the sorted list of the set of the edges, and
  the cycles reachable from each key are broken. The result is the graph \<^verbatim>\<open>G\<close> after
  the loops with the list \<^verbatim>\<open>removed_edges\<close>.
\<close>

definition remove_cyclic_dependencies ::
  "dependency_map \<Rightarrow> error + node digraph \<times> (node \<times> node) list" where
  "remove_cyclic_dependencies depGraph =
     remove_cycles (graph_keys depGraph) (DiGraph (sort (remdups (graph_edges depGraph)))) []"

text \<open>
  Lines 325 to 334, for one removed edge: the target of the edge is appended to the list
  under the name and the version of its origin, which are created when they are missing.
\<close>

fun append_removed :: "node \<times> node \<Rightarrow> dependency_map \<Rightarrow> dependency_map" where
  "append_removed ((n_name, n_ver), removed) cyc =
     (case map_of cyc n_name of
        None \<Rightarrow> AList.update n_name [(n_ver, [removed])] cyc
      | Some versions \<Rightarrow>
          (case map_of versions n_ver of
             None \<Rightarrow> AList.update n_name (AList.update n_ver [removed] versions) cyc
           | Some l \<Rightarrow> AList.update n_name (AList.update n_ver (l @ [removed]) versions) cyc))"

definition cyclic_dependencies_of :: "(node \<times> node) list \<Rightarrow> dependency_map" where
  "cyclic_dependencies_of removed_edges = fold append_removed removed_edges []"

text \<open>
  Lines 293 to 335. Without the key \<^verbatim>\<open>dependencies\<close> the lock is left as it is.
  The cleanup works on the dictionary of the lock itself; the removal of the cycles works
  on the graph \<^verbatim>\<open>G\<close> only, and its result goes to \<^verbatim>\<open>cyclicDependencies\<close>.
\<close>

definition clean_up_dependency_graph :: "lock \<Rightarrow> error + lock" where
  "clean_up_dependency_graph lock =
     (case dependencies (generic lock) of
        None \<Rightarrow> Inr lock
      | Some depGraph0 \<Rightarrow>
          (case remove_cyclic_dependencies (remove_empty_entries depGraph0) of
             Inl e \<Rightarrow> Inl e
           | Inr (G, removed_edges) \<Rightarrow>
               Inr (lock\<lparr>generic := (generic lock)
                          \<lparr>dependencies := Some (remove_empty_entries depGraph0)\<rparr>,
                        cyclicDependencies := Some (cyclic_dependencies_of removed_edges)\<rparr>)))"

subsection \<open>The combined hash and the output file\<close>

text \<open>
  The file \<^verbatim>\<open>dream-lock.json\<close> at the output location holds a lock in one of three
  layouts: as the translator wrote it, as \<^verbatim>\<open>json.dump(lock, f, indent=2)\<close> writes it
  at line 346, or as lines 371 to 377 write it, with sorted keys and compacted arrays.
  The output location is an option: \<open>None\<close> when there is no file.
\<close>

datatype layout = Translated | Indented | Canonical

type_synonym output_file = "(layout \<times> lock) option"

text \<open>
  Modelled from the spec: \<^verbatim>\<open>strip_hashes_from_lock\<close> is a function of the module
  \<^verbatim>\<open>utils\<close>, whose source is not part of the sources at hand. Section 4.4 of the
  specification: ``strip every per-source hash field from \<^verbatim>\<open>sources\<close>, replacing
  values with an empty placeholder''.
\<close>

definition strip_hashes_from_lock :: "lock \<Rightarrow> lock" where
  "strip_hashes_from_lock lock =
     lock\<lparr>sources :=
       map (\<lambda>(name, versions).
              (name, map (\<lambda>(version, source).
                            (version, map (\<lambda>(field, val).
                                             (field, if field = ''hash'' then [] else val)) source))
                       versions))
         (sources lock)\<rparr>"

text \<open>Whether every hash field of the sources is empty.\<close>

definition hashes_empty :: "(string \<times> (string \<times> source_spec) list) list \<Rightarrow> bool" where
  "hashes_empty srcs =
     list_all (\<lambda>(name, versions).
       list_all (\<lambda>(version, source).
         list_all (\<lambda>(field, val). field = ''hash'' \<longrightarrow> val = []) source) versions) srcs"

text \<open>
  Line 358: \<^verbatim>\<open>re.search(r"FOD_PATH=(.*=)", log)\<close>, the group of the leftmost match.
  The dot matches every character but the newline and the star is greedy, so from the
  first \<^verbatim>\<open>FOD_PATH=\<close> that has another \<^verbatim>\<open>=\<close> on the rest of its line, the group is
  the rest of the line up to its last \<^verbatim>\<open>=\<close>.
\<close>

definition up_to_last_eq :: "string \<Rightarrow> string" where
  "up_to_last_eq line = rev (dropWhile (\<lambda>c. c \<noteq> CHR ''='') (rev line))"

fun search_fod_path :: "string \<Rightarrow> string option" where
  "search_fod_path [] = None"
| "search_fod_path (c # cs) =
     (if take 9 (c # cs) = ''FOD_PATH=''
         \<and> up_to_last_eq (takeWhile (\<lambda>x. x \<noteq> CHR 0x0A) (drop 9 (c # cs))) \<noteq> []
      then Some (up_to_last_eq (takeWhile (\<lambda>x. x \<noteq> CHR 0x0A) (drop 9 (c # cs))))
      else search_fod_path cs)"

text \<open>
  Lines 343 to 344: the hashes are stripped by the function given, and the combined hash
  starts as the empty string.
\<close>

definition stripped_lock :: "(lock \<Rightarrow> lock) \<Rightarrow> lock \<Rightarrow> lock" where
  "stripped_lock strip lock =
     (strip lock)\<lparr>generic := (generic (strip lock))\<lparr>sourcesCombinedHash := Some []\<rparr>\<rparr>"

text \<open>
  Lines 338 to 367. The stripped lock is written to the output location; then the build
  runs on this file, and \<open>fod_log\<close> is what it prints on the standard error for a file.
  Without the marker the command raises its exception; nothing is done to the file.
\<close>

definition calculate_combined_hash ::
  "(lock \<Rightarrow> lock) \<Rightarrow> (layout \<times> lock \<Rightarrow> string) \<Rightarrow> lock \<Rightarrow> (error + lock) \<times> output_file" where
  "calculate_combined_hash strip fod_log lock =
     (case search_fod_path (fod_log (Indented, stripped_lock strip lock)) of
        None \<Rightarrow> (Inl CouldNotFindFODHash, Some (Indented, stripped_lock strip lock))
      | Some hash \<Rightarrow>
          (Inr ((stripped_lock strip lock)
                  \<lparr>generic := (generic (stripped_lock strip lock))
                     \<lparr>sourcesCombinedHash := Some hash\<rparr>\<rparr>),
           Some (Indented, stripped_lock strip lock)))"

text \<open>
  Lines 256 to 377, the part of the command from the file the translator left to the
  rewriting of \<^verbatim>\<open>dream-lock.json\<close>: the lock after line 377 with the file at the
  output location. This part fails with \<open>TranslatorFailed\<close> when the translator left no
  file (lines 257 to 258), with the error of the combined hash, and with \<open>LockInvalid\<close>
  when line 370 rejects the lock. \<open>checkLockJSON\<close> is the validation of line 370, a
  function of the module \<^verbatim>\<open>utils\<close>, taken as a parameter, as is the function that
  strips the hashes. The command does not end here: lines 380 to 390 follow, in
  \<open>create_default_nix\<close>, and \<open>handle\<close> is the whole command.
\<close>

definition rewrite_dream_lock ::
  "translator \<Rightarrow> bool \<Rightarrow> (string \<times> argval) list \<Rightarrow> source_spec \<Rightarrow> (lock \<Rightarrow> lock) \<Rightarrow>
   (layout \<times> lock \<Rightarrow> string) \<Rightarrow> (lock \<Rightarrow> bool) \<Rightarrow> output_file \<Rightarrow>
   (error + lock) \<times> output_file" where
  "rewrite_dream_lock t combined args sourceSpec strip fod_log checkLockJSON outputDreamLock =
     (case outputDreamLock of
        None \<Rightarrow> (Inl TranslatorFailed, None)
      | Some (l, lock0) \<Rightarrow>
          (case clean_up_dependency_graph
                  (add_main_source sourceSpec (write_translator_info t combined args lock0)) of
             Inl e \<Rightarrow> (Inl e, outputDreamLock)
           | Inr lock1 \<Rightarrow>
               (case (if combined then calculate_combined_hash strip fod_log lock1
                      else (Inr lock1, outputDreamLock)) of
                  (Inl e, out) \<Rightarrow> (Inl e, out)
                | (Inr lock2, out) \<Rightarrow>
                    if checkLockJSON lock2 then (Inr lock2, Some (Canonical, lock2))
                    else (Inl LockInvalid, out))))"

subsection \<open>The command\<close>

text \<open>
  The options of the command line that the embedded lines read (lines 23 to 49):
  \<^verbatim>\<open>--arg\<close>, \<^verbatim>\<open>--combined\<close>, \<^verbatim>\<open>--force\<close> and \<^verbatim>\<open>--default-nix\<close>.
\<close>

record options =
  opt_arg :: "string list"
  opt_combined :: bool
  opt_force :: bool
  opt_default_nix :: bool

text \<open>
  The output directory: the two files that the command names in it, each present or
  not. The file \<^verbatim>\<open>default.nix\<close> is a text.
\<close>

record directory =
  dream_lock_json :: output_file
  default_nix :: "string option"

text \<open>
  What the command gets from outside of the embedded lines. Whether the session is
  interactive and the answers of the user; whether the output directory is the working
  directory; the result of lines 89 to 124, the specification of the source or the error
  these lines end with; the result of lines 126 to 164, the selected translator or the
  error; whether \<^verbatim>\<open>buildNixAttribute\<close> builds the translator (lines 241 to 243);
  the run of the translator (lines 247 to 254), from its arguments and the file at the
  output location before the run to the file after it; the functions
  \<^verbatim>\<open>strip_hashes_from_lock\<close> and \<^verbatim>\<open>checkLockJSON\<close>; the log of the build of
  the combined sources; and the result of \<^verbatim>\<open>callNixFunction\<close> for the template of
  \<^verbatim>\<open>default.nix\<close> (lines 380 to 385), \<open>None\<close> when the call fails. The functions
  of the module \<^verbatim>\<open>utils\<close> are not part of the sources at hand. The operations on the
  file system are taken to succeed.
\<close>

record environment =
  env_interactive :: bool
  env_ask :: "string \<Rightarrow> argval"
  env_output_is_cwd :: bool
  env_source :: "error + source_spec"
  env_translator :: "error + translator"
  env_translator_bin :: bool
  env_run_translator :: "(string \<times> argval) list \<Rightarrow> output_file \<Rightarrow> output_file"
  env_strip_hashes :: "lock \<Rightarrow> lock"
  env_fod_log :: "layout \<times> lock \<Rightarrow> string"
  env_checkLockJSON :: "lock \<Rightarrow> bool"
  env_template :: "lock \<Rightarrow> string option"

text \<open>
  Lines 63 to 87. A missing output directory is created, empty. With \<^verbatim>\<open>--force\<close>
  the files to create are removed; lines 74 and 75 name them without the output
  directory, so these are the files of the working directory: the files of the output
  directory are removed only when it is the working directory. Without \<^verbatim>\<open>--force\<close>
  the command exits when the output directory has one of the files to create.
\<close>

definition ensure_output :: "options \<Rightarrow> bool \<Rightarrow> directory option \<Rightarrow> error + directory" where
  "ensure_output opts is_cwd dir0 =
     (let dir = (case dir0 of
                   None \<Rightarrow> \<lparr>dream_lock_json = None, default_nix = None\<rparr>
                 | Some d \<Rightarrow> d)
      in if opt_force opts then
           Inr (if is_cwd
                then dir\<lparr>dream_lock_json := None,
                         default_nix := (if opt_default_nix opts then None else default_nix dir)\<rparr>
                else dir)
         else if dream_lock_json dir \<noteq> None \<or> (opt_default_nix opts \<and> default_nix dir \<noteq> None)
           then Inl OutputExists
         else Inr dir)"

text \<open>
  Lines 56 to 243, the command before the translator runs: the extra arguments are
  parsed (lines 56 to 61), the output directory is checked, the source is verified, the
  translator is selected, the extra arguments are checked against the translator (lines
  166 to 229), and the translator is built. \<open>Inl\<close> is the error with the output
  directory the command leaves; \<open>Inr\<close> is the specification of the source, the
  translator, its arguments, the lines printed on the standard error, and the output
  directory.
\<close>

definition before_translator ::
  "options \<Rightarrow> environment \<Rightarrow> directory option \<Rightarrow>
   error \<times> directory option
   + source_spec \<times> translator \<times> (string \<times> argval) list \<times> string list \<times> directory" where
  "before_translator opts w dir0 =
     (case parse_extra_args (opt_arg opts) [] of
        Inl e \<Rightarrow> Inl (e, dir0)
      | Inr specified \<Rightarrow>
          (case ensure_output opts (env_output_is_cwd w) dir0 of
             Inl e \<Rightarrow> Inl (e, dir0)
           | Inr dir1 \<Rightarrow>
               (case env_source w of
                  Inl e \<Rightarrow> Inl (e, Some dir1)
                | Inr sourceSpec \<Rightarrow>
                    (case env_translator w of
                       Inl e \<Rightarrow> Inl (e, Some dir1)
                     | Inr t \<Rightarrow>
                         (case extra_args_stage (env_interactive w) (env_ask w) t specified of
                            Inl e \<Rightarrow> Inl (e, Some dir1)
                          | Inr (args, err) \<Rightarrow>
                              if env_translator_bin w
                              then Inr (sourceSpec, t, args, err, dir1)
                              else Inl (NixFailed, Some dir1))))))"

text \<open>
  Lines 380 to 390. The template is computed whether or not \<^verbatim>\<open>--default-nix\<close> is
  given, and the command ends with an error when the call fails; the file
  \<^verbatim>\<open>default.nix\<close> is written only with the option.
\<close>

definition create_default_nix ::
  "options \<Rightarrow> environment \<Rightarrow> lock \<Rightarrow> directory \<Rightarrow> (error + lock) \<times> directory" where
  "create_default_nix opts w lock dir =
     (case env_template w lock of
        None \<Rightarrow> (Inl NixFailed, dir)
      | Some template \<Rightarrow>
          (Inr lock, if opt_default_nix opts then dir\<lparr>default_nix := Some template\<rparr> else dir))"

text \<open>
  \<^verbatim>\<open>PackageCommand.handle\<close>, lines 51 to 390: the result of the command, an error
  or the lock it ends with, and the output directory it leaves.
\<close>

definition handle ::
  "options \<Rightarrow> environment \<Rightarrow> directory option \<Rightarrow> (error + lock) \<times> directory option" where
  "handle opts w dir0 =
     (case before_translator opts w dir0 of
        Inl (e, dir) \<Rightarrow> (Inl e, dir)
      | Inr (sourceSpec, t, args, err, dir1) \<Rightarrow>
          (case rewrite_dream_lock t (opt_combined opts) args sourceSpec (env_strip_hashes w)
                  (env_fod_log w) (env_checkLockJSON w)
                  (env_run_translator w args (dream_lock_json dir1)) of
             (Inl e, out) \<Rightarrow> (Inl e, Some (dir1\<lparr>dream_lock_json := out\<rparr>))
           | (Inr lock, out) \<Rightarrow>
               (case create_default_nix opts w lock (dir1\<lparr>dream_lock_json := out\<rparr>) of
                  (res, dir2) \<Rightarrow> (res, Some dir2))))"

text \<open>The file \<^verbatim>\<open>dream-lock.json\<close> of an output directory that may not exist.\<close>

definition lock_file :: "directory option \<Rightarrow> output_file" where
  "lock_file dir = (case dir of None \<Rightarrow> None | Some d \<Rightarrow> dream_lock_json d)"
subsection \<open>The text of the lock\<close>

text \<open>
  Lines 371 to 377 write the lock as \<^verbatim>\<open>json.dumps(lock, indent=2, sort_keys = True)\<close>
  with three replacements. The lock is a value of JSON: a dictionary of dictionaries,
  lists and strings (a tuple is written as a list). Numbers are left out: the lock has
  none. A character is a code point below 256.
\<close>

datatype json = JNull | JBool bool | JString string | JArray "json list" | JObject "(string \<times> json) list"

text \<open>The double quote, the backslash and the newline.\<close>

abbreviation QUOTE :: char where "QUOTE \<equiv> CHR 0x22"
abbreviation BACKSLASH :: char where "BACKSLASH \<equiv> CHR 0x5C"
abbreviation NEWLINE :: char where "NEWLINE \<equiv> CHR 0x0A"

text \<open>
  The string encoder of \<^verbatim>\<open>json\<close> with \<^verbatim>\<open>ensure_ascii\<close>: the quote, the
  backslash and the control characters with a short escape are escaped with a backslash,
  every other character outside the printable ASCII range as \<^verbatim>\<open>\u00XX\<close> with small
  hexadecimal digits.
\<close>

definition hex_digit :: "nat \<Rightarrow> char" where
  "hex_digit n = ''0123456789abcdef'' ! n"

definition encode_char :: "char \<Rightarrow> string" where
  "encode_char c =
     (if c = QUOTE then [BACKSLASH, QUOTE]
      else if c = BACKSLASH then [BACKSLASH, BACKSLASH]
      else if c = NEWLINE then [BACKSLASH, CHR ''n'']
      else if c = CHR 0x0D then [BACKSLASH, CHR ''r'']
      else if c = CHR 0x09 then [BACKSLASH, CHR ''t'']
      else if c = CHR 0x08 then [BACKSLASH, CHR ''b'']
      else if c = CHR 0x0C then [BACKSLASH, CHR ''f'']
      else if of_char c < (32 :: nat) \<or> (126 :: nat) < of_char c
        then [BACKSLASH, CHR ''u'', CHR ''0'', CHR ''0'',
              hex_digit (of_char c div 16), hex_digit (of_char c mod 16)]
      else [c])"

definition encode_string :: "string \<Rightarrow> string" where
  "encode_string s = QUOTE # concat (map encode_char s) @ [QUOTE]"

text \<open>A newline followed by the indentation of a level, two spaces a level.\<close>

definition newline_indent :: "nat \<Rightarrow> string" where
  "newline_indent level = NEWLINE # replicate (2 * level) CHR '' ''"

text \<open>
  The encoder of \<^verbatim>\<open>json\<close> with an indentation: an empty list is \<^verbatim>\<open>[]\<close> and an
  empty dictionary \<^verbatim>\<open>{}\<close>; otherwise every item is on a line of its own, one level
  deeper, the items are separated by a comma, a key is followed by a colon and a space,
  and the closing bracket is on a line of its own. The items of a dictionary are sorted
  by their keys.
\<close>

fun encode :: "nat \<Rightarrow> json \<Rightarrow> string" where
  "encode level JNull = ''null''"
| "encode level (JBool b) = (if b then ''true'' else ''false'')"
| "encode level (JString s) = encode_string s"
| "encode level (JArray xs) =
     (if xs = [] then ''[]''
      else ''['' @ newline_indent (Suc level)
           @ join ('','' @ newline_indent (Suc level)) (map (encode (Suc level)) xs)
           @ newline_indent level @ '']'')"
| "encode level (JObject items) =
     (if items = [] then ''{}''
      else ''{'' @ newline_indent (Suc level)
           @ join ('','' @ newline_indent (Suc level))
               (map (\<lambda>(k, v). encode_string k @ '': '' @ encode (Suc level) v) (sort_key fst items))
           @ newline_indent level @ ''}'')"

text \<open>
  \<^verbatim>\<open>str.replace(old, new)\<close> for a string \<^verbatim>\<open>old\<close> that is not empty: the
  occurrences are replaced from the left and do not overlap.
\<close>

function replace :: "string \<Rightarrow> string \<Rightarrow> string \<Rightarrow> string" where
  "replace old new [] = []"
| "replace old new (c # cs) =
     (if old \<noteq> [] \<and> take (length old) (c # cs) = old
      then new @ replace old new (drop (length old) (c # cs))
      else c # replace old new cs)"
  by pat_completeness auto
termination
  by (relation "measure (\<lambda>(old, new, s). length s)") auto

text \<open>Lines 372 to 375: the three replacements that put short lists on one line.\<close>

definition compact :: "string \<Rightarrow> string" where
  "compact s =
     replace ('','' @ NEWLINE # replicate 10 CHR '' '') '', ''
       (replace (QUOTE # NEWLINE # replicate 8 CHR '' '' @ '']'') (QUOTE # '' ]'')
         (replace (''['' @ NEWLINE # replicate 10 CHR '' '') ''[ '' s))"

text \<open>
  \<^verbatim>\<open>json.loads\<close> reads a text as tokens with optional whitespace between them:
  the six punctuation characters, strings, and the words \<^verbatim>\<open>null\<close>, \<^verbatim>\<open>true\<close> and
  \<^verbatim>\<open>false\<close>. The scanner is a machine that reads one character at a time: it is
  outside of a token, in a word, in a string, after a backslash in a string, or in the
  four hexadecimal digits of a \<^verbatim>\<open>\u\<close> escape. A control character in a string is
  an error, as is an escape of a code point that is not below 256.
\<close>

datatype token = TPunct char | TString string | TWord string

datatype mode = Out | Word string | Str string | Esc string | Uni string string

definition whitespace :: "char \<Rightarrow> bool" where
  "whitespace c = (c \<in> set [CHR '' '', CHR 0x09, NEWLINE, CHR 0x0D])"

definition punctuation :: "char \<Rightarrow> bool" where
  "punctuation c = (c \<in> set ''[]{}:,'')"

definition hex_value :: "char \<Rightarrow> nat option" where
  "hex_value c =
     map_of (zip ''0123456789abcdefABCDEF'' [0, 1, 2, 3, 4, 5, 6, 7, 8, 9, 10, 11, 12, 13, 14, 15,
                                             10, 11, 12, 13, 14, 15]) c"

definition unescape :: "char \<Rightarrow> char option" where
  "unescape c =
     map_of [(QUOTE, QUOTE), (BACKSLASH, BACKSLASH), (CHR ''/'', CHR ''/''),
             (CHR ''b'', CHR 0x08), (CHR ''f'', CHR 0x0C), (CHR ''n'', NEWLINE),
             (CHR ''r'', CHR 0x0D), (CHR ''t'', CHR 0x09)] c"

fun code_point :: "nat \<Rightarrow> string \<Rightarrow> nat option" where
  "code_point acc [] = Some acc"
| "code_point acc (h # hs) =
     (case hex_value h of None \<Rightarrow> None | Some d \<Rightarrow> code_point (16 * acc + d) hs)"

fun step :: "mode \<Rightarrow> char \<Rightarrow> (mode \<times> token list) option" where
  "step Out c =
     (if whitespace c then Some (Out, [])
      else if punctuation c then Some (Out, [TPunct c])
      else if c = QUOTE then Some (Str [], [])
      else Some (Word [c], []))"
| "step (Word w) c =
     (if whitespace c then Some (Out, [TWord w])
      else if punctuation c then Some (Out, [TWord w, TPunct c])
      else if c = QUOTE then Some (Str [], [TWord w])
      else Some (Word (w @ [c]), []))"
| "step (Str s) c =
     (if c = QUOTE then Some (Out, [TString s])
      else if c = BACKSLASH then Some (Esc s, [])
      else if of_char c < (32 :: nat) then None
      else Some (Str (s @ [c]), []))"
| "step (Esc s) c =
     (if c = CHR ''u'' then Some (Uni s [], [])
      else (case unescape c of None \<Rightarrow> None | Some d \<Rightarrow> Some (Str (s @ [d]), [])))"
| "step (Uni s hs) c =
     (if hex_value c = None then None
      else if length hs < 3 then Some (Uni s (hs @ [c]), [])
      else (case code_point 0 (hs @ [c]) of
              None \<Rightarrow> None
            | Some n \<Rightarrow> if n < 256 then Some (Str (s @ [char_of n]), []) else None))"

fun finish :: "mode \<Rightarrow> token list option" where
  "finish Out = Some []"
| "finish (Word w) = Some [TWord w]"
| "finish _ = None"

fun lex :: "mode \<Rightarrow> string \<Rightarrow> token list option" where
  "lex m [] = finish m"
| "lex m (c # cs) =
     (case step m c of
        None \<Rightarrow> None
      | Some (m', out) \<Rightarrow> map_option ((@) out) (lex m' cs))"

text \<open>
  The dictionary of a list of pairs: a later pair with the same key replaces the value
  of the earlier one.
\<close>

definition dict_of :: "(string \<times> json) list \<Rightarrow> json" where
  "dict_of pairs = JObject (fold (\<lambda>(k, v). AList.update k v) pairs [])"

text \<open>
  The parser of the tokens, with fuel for its recursion: a value, the items of a list
  after its opening bracket, and the items of a dictionary after its opening brace.
\<close>

fun parse_value :: "nat \<Rightarrow> token list \<Rightarrow> (json \<times> token list) option"
  and parse_array :: "nat \<Rightarrow> token list \<Rightarrow> (json list \<times> token list) option"
  and parse_object :: "nat \<Rightarrow> token list \<Rightarrow> ((string \<times> json) list \<times> token list) option"
where
  "parse_value 0 ts = None"
| "parse_value (Suc n) [] = None"
| "parse_value (Suc n) (TString s # ts) = Some (JString s, ts)"
| "parse_value (Suc n) (TWord w # ts) =
     (if w = ''null'' then Some (JNull, ts)
      else if w = ''true'' then Some (JBool True, ts)
      else if w = ''false'' then Some (JBool False, ts)
      else None)"
| "parse_value (Suc n) (TPunct c # ts) =
     (if c = CHR ''['' then
        (if ts \<noteq> [] \<and> hd ts = TPunct CHR '']'' then Some (JArray [], tl ts)
         else map_option (\<lambda>(vs, r). (JArray vs, r)) (parse_array n ts))
      else if c = CHR ''{'' then
        (if ts \<noteq> [] \<and> hd ts = TPunct CHR ''}'' then Some (JObject [], tl ts)
         else map_option (\<lambda>(ps, r). (dict_of ps, r)) (parse_object n ts))
      else None)"
| "parse_array 0 ts = None"
| "parse_array (Suc n) ts =
     (case parse_value n ts of
        None \<Rightarrow> None
      | Some (v, r) \<Rightarrow>
          (case r of
             TPunct c # r' \<Rightarrow>
               if c = CHR '','' then map_option (\<lambda>(vs, r''). (v # vs, r'')) (parse_array n r')
               else if c = CHR '']'' then Some ([v], r')
               else None
           | _ \<Rightarrow> None))"
| "parse_object 0 ts = None"
| "parse_object (Suc n) ts =
     (case ts of
        TString k # TPunct c # r \<Rightarrow>
          if c = CHR '':'' then
            (case parse_value n r of
               None \<Rightarrow> None
             | Some (v, r') \<Rightarrow>
                 (case r' of
                    TPunct c' # r'' \<Rightarrow>
                      if c' = CHR '','' then
                        map_option (\<lambda>(ps, r3). ((k, v) # ps, r3)) (parse_object n r'')
                      else if c' = CHR ''}'' then Some ([(k, v)], r'')
                      else None
                  | _ \<Rightarrow> None))
          else None
      | _ \<Rightarrow> None)"

text \<open>
  \<^verbatim>\<open>json.loads\<close>: the tokens of the whole text are one value and nothing more. The
  fuel is more than the parser uses on this many tokens.
\<close>

definition json_loads :: "string \<Rightarrow> json option" where
  "json_loads s =
     (case lex Out s of
        None \<Rightarrow> None
      | Some ts \<Rightarrow>
          (case parse_value (Suc (2 * length ts)) ts of
             Some (v, []) \<Rightarrow> Some v
           | _ \<Rightarrow> None))"

text \<open>\<^verbatim>\<open>json.dumps(lock, indent=2, sort_keys = True)\<close>.\<close>

definition json_dumps :: "json \<Rightarrow> string" where
  "json_dumps v = encode 0 v"

text \<open>Lines 371 to 375: the text that line 377 writes.\<close>

definition lockStr :: "json \<Rightarrow> string" where
  "lockStr lock = compact (json_dumps lock)"

text \<open>
  A document with the items of every dictionary sorted by their keys: the same document
  when the order of the keys is ignored. A dictionary has every key once.
\<close>

fun sort_keys :: "json \<Rightarrow> json" where
  "sort_keys (JArray xs) = JArray (map sort_keys xs)"
| "sort_keys (JObject items) = JObject (sort_key fst (map (\<lambda>(k, v). (k, sort_keys v)) items))"
| "sort_keys v = v"

fun distinct_keys :: "json \<Rightarrow> bool" where
  "distinct_keys (JArray xs) = list_all distinct_keys xs"
| "distinct_keys (JObject items) =
     (distinct (map fst items) \<and> list_all (\<lambda>(k, v). distinct_keys v) items)"
| "distinct_keys v = True"

subsection \<open>Reading the cyclic dependencies\<close>

text \<open>
  The list \<^verbatim>\<open>cyclicDependencies[name][version]\<close>, empty when a key is missing, and
  the edges that \<^verbatim>\<open>cyclicDependencies\<close> records: an origin with each of the nodes in
  its list.
\<close>

definition cyclic_lookup :: "dependency_map \<Rightarrow> string \<Rightarrow> string \<Rightarrow> node list" where
  "cyclic_lookup cyc name version =
     (case map_of cyc name of
        None \<Rightarrow> []
      | Some versions \<Rightarrow> (case map_of versions version of None \<Rightarrow> [] | Some l \<Rightarrow> l))"

definition recorded_edges :: "dependency_map \<Rightarrow> (node \<times> node) set" where
  "recorded_edges cyc = {((name, version), dep). dep \<in> set (cyclic_lookup cyc name version)}"

subsection \<open>Example locks\<close>

text \<open>A lock with the given dependencies and nothing else.\<close>

definition lock_of :: "dependency_map option \<Rightarrow> lock" where
  "lock_of deps =
     \<lparr>generic = \<lparr>mainPackageName = ''A'', mainPackageVersion = ''1'', translatedBy = None,
                 translatorParams = None, dependencies = deps, sourcesCombinedHash = None\<rparr>,
      sources = [], cyclicDependencies = None\<rparr>"

text \<open>
  The dependencies of section 8 of the specification, A and B depending on each other;
  A depending on B with B and C depending on each other; A depending on B only; and a
  package with no dependency.
\<close>

definition deps_two_cycle :: dependency_map where
  "deps_two_cycle =
     [(''A'', [(''1'', [(''B'', ''1'')])]), (''B'', [(''1'', [(''A'', ''1'')])])]"

definition deps_tail_cycle :: dependency_map where
  "deps_tail_cycle =
     [(''A'', [(''1'', [(''B'', ''1'')])]), (''B'', [(''1'', [(''C'', ''1'')])]),
      (''C'', [(''1'', [(''B'', ''1'')])])]"

definition deps_chain :: dependency_map where
  "deps_chain = [(''A'', [(''1'', [(''B'', ''1'')])])]"

definition deps_leaf :: dependency_map where
  "deps_leaf = [(''A'', [(''1'', [])])]"

text \<open>
  A translator with no extra argument, and the lock of a translator with one source
  that has a hash.
\<close>

definition example_translator :: translator where
  "example_translator =
     \<lparr>subsystem = ''nodejs'', ttype = ''pure'', tname = ''package-lock'', extraArgs = []\<rparr>"

definition lock_with_hash :: lock where
  "lock_with_hash =
     \<lparr>generic = \<lparr>mainPackageName = ''A'', mainPackageVersion = ''1'', translatedBy = None,
                 translatorParams = None, dependencies = None, sourcesCombinedHash = None\<rparr>,
      sources = [(''B'', [(''1'', [(''type'', ''fetchurl''), (''hash'', ''sha256-xyz'')])])],
      cyclicDependencies = None\<rparr>"

text \<open>The lock at the output location after the hash of this lock was stripped.\<close>

definition lock_with_hash_stripped :: lock where
  "lock_with_hash_stripped =
     \<lparr>generic = \<lparr>mainPackageName = ''A'', mainPackageVersion = ''1'',
                 translatedBy = Some ''nodejs.pure.package-lock'',
                 translatorParams = Some ''--translator nodejs.pure.package-lock --combined'',
                 dependencies = None, sourcesCombinedHash = Some []\<rparr>,
      sources = [(''B'', [(''1'', [(''type'', ''fetchurl''), (''hash'', [])])]),
                 (''A'', [(''1'', [(''type'', ''unknown'')])])],
      cyclicDependencies = None\<rparr>"

text \<open>
  A lock as a document: the main package \<^verbatim>\<open>A\<close> depends on \<^verbatim>\<open>B\<close>, and the dependency
  of \<^verbatim>\<open>B\<close> on \<^verbatim>\<open>A\<close> was removed and recorded. The keys are in the order in which
  the command sets them.
\<close>

definition example_document :: json where
  "example_document =
     JObject
       [(''sources'', JObject [(''A'', JObject [(''1'', JObject [(''type'', JString ''unknown'')])])]),
        (''_generic'',
           JObject [(''mainPackageName'', JString ''A''),
                    (''mainPackageVersion'', JString ''1''),
                    (''dependencies'', JObject [(''A'', JObject [(''1'', JArray [JArray [JString ''B'', JString ''1'']])])]),
                    (''sourcesCombinedHash'', JNull)]),
        (''cyclicDependencies'',
           JObject [(''B'', JObject [(''1'', JArray [JArray [JString ''A'', JString ''1'']])])])]"

text \<open>The same document with the keys of every dictionary sorted.\<close>

definition example_document_sorted :: json where
  "example_document_sorted =
     JObject
       [(''_generic'',
           JObject [(''dependencies'', JObject [(''A'', JObject [(''1'', JArray [JArray [JString ''B'', JString ''1'']])])]),
                    (''mainPackageName'', JString ''A''),
                    (''mainPackageVersion'', JString ''1''),
                    (''sourcesCombinedHash'', JNull)]),
        (''cyclicDependencies'',
           JObject [(''B'', JObject [(''1'', JArray [JArray [JString ''A'', JString ''1'']])])]),
        (''sources'', JObject [(''A'', JObject [(''1'', JObject [(''type'', JString ''unknown'')])])])]"

text \<open>
  The options \<^verbatim>\<open>--combined\<close> alone, and an environment where the session is not
  interactive, the source is a path, the translator is the one above and writes the lock
  with one hash, the build prints the marker, the lock is valid and the template is
  computed.
\<close>

definition example_options :: options where
  "example_options =
     \<lparr>opt_arg = [], opt_combined = True, opt_force = False, opt_default_nix = False\<rparr>"

definition example_environment :: environment where
  "example_environment =
     \<lparr>env_interactive = False, env_ask = (\<lambda>n. VBool False), env_output_is_cwd = False,
      env_source = Inr [], env_translator = Inr example_translator, env_translator_bin = True,
      env_run_translator = (\<lambda>args file. Some (Translated, lock_with_hash)),
      env_strip_hashes = strip_hashes_from_lock,
      env_fod_log = (\<lambda>file. ''FOD_PATH=sha256-abc=''),
      env_checkLockJSON = (\<lambda>lock. True),
      env_template = (\<lambda>lock. Some ''{ }'')\<rparr>"


text \<open>
  A translator that declares the two arguments \<^verbatim>\<open>a\<close> and \<^verbatim>\<open>b\<close>, the command
  lines \<^verbatim>\<open>--arg b=2 --arg a=1\<close> and \<^verbatim>\<open>--arg a=1 --arg b=2\<close>, and the
  environment with this translator.
\<close>

definition translator_two_args :: translator where
  "translator_two_args =
     \<lparr>subsystem = ''nodejs'', ttype = ''pure'', tname = ''package-lock'',
      extraArgs = [(''a'', \<lparr>arg_type = ''argument'', arg_default = None\<rparr>),
                   (''b'', \<lparr>arg_type = ''argument'', arg_default = None\<rparr>)]\<rparr>"

definition options_b_a :: options where
  "options_b_a =
     \<lparr>opt_arg = [''b=2'', ''a=1''], opt_combined = False, opt_force = False,
      opt_default_nix = False\<rparr>"

definition options_a_b :: options where
  "options_a_b = options_b_a\<lparr>opt_arg := [''a=1'', ''b=2'']\<rparr>"

definition environment_two_args :: environment where
  "environment_two_args = example_environment\<lparr>env_translator := Inr translator_two_args\<rparr>"

text \<open>
  A lock of a translator with the key \<^verbatim>\<open>cyclicDependencies\<close> and without the key
  \<^verbatim>\<open>dependencies\<close>, and the environment where the translator writes this lock.
\<close>

definition lock_with_key :: lock where
  "lock_with_key = (lock_of None)\<lparr>cyclicDependencies := Some [(''B'', [(''1'', [(''A'', ''1'')])])]\<rparr>"

definition environment_with_key :: environment where
  "environment_with_key =
     example_environment\<lparr>env_run_translator := (\<lambda>args file. Some (Translated, lock_with_key))\<rparr>"


subsection \<open>Paths, cycles and the invariant of the search\<close>

text \<open>
  The edges of a graph as a relation. A node reaches no cycle when no node that it
  reaches is on a closed path. A list of edges is a path when every edge starts where
  the one before it ends, and it is a cycle that a node reaches when it is a closed path
  of the graph that starts at a node that the node reaches.
\<close>

definition edges_of :: "'n digraph \<Rightarrow> ('n \<times> 'n) set" where
  "edges_of G = {(u, v). v \<in> set (succs G u)}"

definition no_cycle_from :: "'n digraph \<Rightarrow> 'n \<Rightarrow> bool" where
  "no_cycle_from G s \<longleftrightarrow> (\<forall>x. (s, x) \<in> (edges_of G)\<^sup>* \<longrightarrow> (x, x) \<notin> (edges_of G)\<^sup>+)"

fun is_path :: "('n \<times> 'n) list \<Rightarrow> bool" where
  "is_path (e # f # es) = (snd e = fst f \<and> is_path (f # es))"
| "is_path [e] = True"
| "is_path [] = True"

definition good_cycle :: "'n digraph \<Rightarrow> 'n \<Rightarrow> ('n \<times> 'n) list \<Rightarrow> bool" where
  "good_cycle G s c \<longleftrightarrow>
     c \<noteq> [] \<and> set c \<subseteq> edges_of G \<and> is_path c \<and> snd (last c) = fst (hd c)
   \<and> (s, fst (hd c)) \<in> (edges_of G)\<^sup>*"

text \<open>
  The invariant of the search from a node \<^verbatim>\<open>s\<close>. The stack is a path of the
  graph in reverse, from \<^verbatim>\<open>s\<close>; a node is finished when its iterator is exhausted and it
  is off the stack below its top; every successor that the iterator of a node on the
  path has passed is finished, except the next node of the path; no finished node is on a
  cycle; and a visited edge leads to a finished node or is an edge of the path.
\<close>

definition fin :: "('n \<rightharpoonup> 'n list) \<Rightarrow> 'n list \<Rightarrow> 'n set" where
  "fin it S = {u. it u = Some [] \<and> u \<notin> set (tl S)}"

fun links :: "'n digraph \<Rightarrow> ('n \<rightharpoonup> 'n list) \<Rightarrow> 'n set \<Rightarrow> 'n list \<Rightarrow> bool" where
  "links G it F (c # p # rest) =
     ((\<exists>pre vs. it p = Some vs \<and> succs G p = pre @ c # vs \<and> set pre \<subseteq> F) \<and> links G it F (p # rest))"
| "links G it F [c] = True"
| "links G it F [] = True"

definition child_of :: "'n list \<Rightarrow> 'n \<Rightarrow> 'n \<Rightarrow> bool" where
  "child_of S u v = (\<exists>pre post. S = pre @ v # u # post)"

definition dfs_ok ::
  "'n digraph \<Rightarrow> 'n \<Rightarrow> ('n \<times> 'n) set \<Rightarrow> ('n \<rightharpoonup> 'n list) \<Rightarrow> 'n list \<Rightarrow> bool" where
  "dfs_ok G s VE it S \<longleftrightarrow>
     distinct S
   \<and> links G it (fin it S) S
   \<and> (\<forall>u vs. it u = Some vs \<longrightarrow> u \<notin> set (tl S) \<longrightarrow> (\<exists>pre. succs G u = pre @ vs \<and> set pre \<subseteq> fin it S))
   \<and> (\<forall>u vs. it u = Some vs \<longrightarrow> u \<notin> set S \<longrightarrow> vs = [])
   \<and> (\<forall>u \<in> fin it S. (u, u) \<notin> (edges_of G)\<^sup>+)
   \<and> (\<forall>u v. (u, v) \<in> VE \<longrightarrow> v \<in> fin it S \<or> child_of S u v)
   \<and> (\<forall>x \<in> set S. (s, x) \<in> (edges_of G)\<^sup>*)
   \<and> (S \<noteq> [] \<longrightarrow> last S = s)
   \<and> (S = [] \<longrightarrow> s \<in> fin it S)"

definition dfs_inv :: "'n digraph \<Rightarrow> 'n \<Rightarrow> 'n edge_dfs_state \<Rightarrow> bool" where
  "dfs_inv G s st \<longleftrightarrow>
     visited_nodes st = dom (map_of (edges_it st))
   \<and> dfs_ok G s (visited_edges st) (map_of (edges_it st)) (stack st)"

text \<open>
  What one step of the generator returns: it raises nothing, it stops only when
  \<^verbatim>\<open>s\<close> reaches no cycle, and an edge that it yields is an edge of the graph from a
  node of the stack to the new top of the stack.
\<close>

definition next_post :: "'n digraph \<Rightarrow> 'n \<Rightarrow> 'n edge_dfs_state \<Rightarrow> 'n generated \<Rightarrow> bool" where
  "next_post G s st r =
     (case r of
        StopIteration \<Rightarrow> no_cycle_from G s
      | Raise e \<Rightarrow> False
      | Yield e st' \<Rightarrow>
          (\<exists>pre rest. stack st = pre @ fst e # rest \<and> stack st' = snd e # fst e # rest
             \<and> e \<in> edges_of G \<and> (snd e \<notin> set (fst e # rest) \<longrightarrow> dfs_inv G s st')))"

text \<open>
  The path that \<^verbatim>\<open>find_cycle\<close> keeps is the path of the stack of the generator.
\<close>

fun path_of :: "'n list \<Rightarrow> ('n \<times> 'n) list" where
  "path_of (c # p # rest) = (p, c) # path_of (p # rest)"
| "path_of [c] = []"
| "path_of [] = []"

definition fc_rel :: "'n edge_dfs_state \<Rightarrow> 'n find_cycle_state \<Rightarrow> bool" where
  "fc_rel st fc \<longleftrightarrow>
     path_edges fc = path_of (stack st)
   \<and> active_nodes fc = set (stack st)
   \<and> previous_head fc = (if tl (stack st) = [] then None else Some (hd (stack st)))"

subsection \<open>The tokens of a document\<close>

text \<open>
  The scanner run over a part of a text, the tokens of the text that the encoder
  writes for a document, and the texts that end a word.
\<close>

fun run :: "mode \<Rightarrow> string \<Rightarrow> (mode \<times> token list) option" where
  "run m [] = Some (m, [])"
| "run m (c # cs) =
     (case step m c of
        None \<Rightarrow> None
      | Some (m', out) \<Rightarrow> map_option (\<lambda>(m'', out'). (m'', out @ out')) (run m' cs))"

fun toks :: "json \<Rightarrow> token list" where
  "toks JNull = [TWord ''null'']"
| "toks (JBool b) = [TWord (if b then ''true'' else ''false'')]"
| "toks (JString s) = [TString s]"
| "toks (JArray xs) =
     TPunct CHR ''['' # join [TPunct CHR '',''] (map toks xs) @ [TPunct CHR '']'']"
| "toks (JObject items) =
     TPunct CHR ''{''
       # join [TPunct CHR '','']
           (map (\<lambda>(k, v). TString k # TPunct CHR '':'' # toks v) (sort_key fst items))
       @ [TPunct CHR ''}'']"

definition delim :: "string \<Rightarrow> bool" where
  "delim rest = (rest = [] \<or> whitespace (hd rest) \<or> punctuation (hd rest))"

section \<open>Theorems\<close>

lemma join_prefixed:
  "join sep (x # xs) = x @ concat (map (\<lambda>y. sep @ y) xs)"
  by (induction xs arbitrary: x) simp_all

subsection \<open>The search for a cycle\<close>

text \<open>
  The edges of a graph as a relation, and the facts about the search of
  \<^verbatim>\<open>find_cycle\<close> that the theorems on the removal of the cycles rest on: the
  search from a node returns a closed path of the graph that the node reaches, or raises
  \<^verbatim>\<open>NetworkXNoCycle\<close> when the node reaches no cycle, and raises nothing else.
\<close>

lemma dfs_okD:
  assumes "dfs_ok G s VE it S"
  shows "distinct S"
    and "links G it (fin it S) S"
    and "\<And>u vs. it u = Some vs \<Longrightarrow> u \<notin> set (tl S) \<Longrightarrow> \<exists>pre. succs G u = pre @ vs \<and> set pre \<subseteq> fin it S"
    and "\<And>u vs. it u = Some vs \<Longrightarrow> u \<notin> set S \<Longrightarrow> vs = []"
    and "\<And>u. u \<in> fin it S \<Longrightarrow> (u, u) \<notin> (edges_of G)\<^sup>+"
    and "\<And>u v. (u, v) \<in> VE \<Longrightarrow> v \<in> fin it S \<or> child_of S u v"
    and "\<And>x. x \<in> set S \<Longrightarrow> (s, x) \<in> (edges_of G)\<^sup>*"
    and "S \<noteq> [] \<Longrightarrow> last S = s"
    and "S = [] \<Longrightarrow> s \<in> fin it S"
  using assms unfolding dfs_ok_def by blast+

lemma dfs_okI:
  assumes "distinct S"
    and "links G it (fin it S) S"
    and "\<And>u vs. it u = Some vs \<Longrightarrow> u \<notin> set (tl S) \<Longrightarrow> \<exists>pre. succs G u = pre @ vs \<and> set pre \<subseteq> fin it S"
    and "\<And>u vs. it u = Some vs \<Longrightarrow> u \<notin> set S \<Longrightarrow> vs = []"
    and "\<And>u. u \<in> fin it S \<Longrightarrow> (u, u) \<notin> (edges_of G)\<^sup>+"
    and "\<And>u v. (u, v) \<in> VE \<Longrightarrow> v \<in> fin it S \<or> child_of S u v"
    and "\<And>x. x \<in> set S \<Longrightarrow> (s, x) \<in> (edges_of G)\<^sup>*"
    and "S \<noteq> [] \<Longrightarrow> last S = s"
    and "S = [] \<Longrightarrow> s \<in> fin it S"
  shows "dfs_ok G s VE it S"
  unfolding dfs_ok_def using assms by blast

lemma links_mono:
  "links G it F S \<Longrightarrow> F \<subseteq> F' \<Longrightarrow> (\<And>p. p \<in> set (tl S) \<Longrightarrow> it' p = it p) \<Longrightarrow> links G it' F' S"
proof (induction G it F S rule: links.induct)
  case (1 G it F c p rest)
  from "1.prems"(1) obtain pre vs where a: "it p = Some vs" "succs G p = pre @ c # vs" "set pre \<subseteq> F"
    and l: "links G it F (p # rest)" by auto
  have "links G it' F' (p # rest)"
    by (rule "1.IH" [OF l "1.prems"(2)]) (simp add: "1.prems"(3))
  moreover have "it' p = Some vs" using a(1) "1.prems"(3) [of p] by simp
  ultimately show ?case using a "1.prems"(2) by auto
qed simp_all

lemma fin_closed:
  assumes "dfs_ok G s VE it S" "u \<in> fin it S"
  shows "set (succs G u) \<subseteq> fin it S"
proof -
  from assms(2) have "it u = Some []" "u \<notin> set (tl S)" by (auto simp: fin_def)
  from dfs_okD(3) [OF assms(1) this] show ?thesis by auto
qed

lemma closed_reach:
  assumes cl: "\<And>u. u \<in> F \<Longrightarrow> set (succs G u) \<subseteq> F"
  shows "(x, y) \<in> (edges_of G)\<^sup>* \<Longrightarrow> x \<in> F \<Longrightarrow> y \<in> F"
proof (induction rule: rtrancl_induct)
  case base
  then show ?case .
next
  case (step y z)
  then have "y \<in> F" by simp
  with cl [of y] step.hyps(2) show ?case by (auto simp: edges_of_def)
qed

lemma closed_no_cycle:
  assumes cl: "\<And>u. u \<in> F \<Longrightarrow> set (succs G u) \<subseteq> F"
    and p: "set (succs G p) \<subseteq> F" "p \<notin> F"
  shows "(p, p) \<notin> (edges_of G)\<^sup>+"
proof
  assume "(p, p) \<in> (edges_of G)\<^sup>+"
  then obtain x where x: "(p, x) \<in> edges_of G" "(x, p) \<in> (edges_of G)\<^sup>*"
    by (auto dest: tranclD)
  from x(1) p(1) have "x \<in> F" by (auto simp: edges_of_def)
  from closed_reach [of F G, OF cl x(2) this] p(2) show False by simp
qed

lemma step_visit:
  assumes ok: "dfs_ok G s VE it (u # rest)" and u: "it u = None"
  shows "dfs_ok G s VE (it(u \<mapsto> succs G u)) (u # rest)"
proof -
  let ?S = "u # rest" and ?it = "it(u \<mapsto> succs G u)"
  note d = dfs_okD [OF ok]
  have urest: "u \<notin> set rest" using d(1) by simp
  have sub: "fin it ?S \<subseteq> fin ?it ?S" using u by (auto simp: fin_def)
  have new: "x \<in> fin ?it ?S \<Longrightarrow> x \<notin> fin it ?S \<Longrightarrow> x = u \<and> succs G u = []" for x
    by (auto simp: fin_def split: if_splits)
  show ?thesis
  proof (rule dfs_okI)
    show "distinct ?S" by (rule d(1))
    show "links G ?it (fin ?it ?S) ?S"
      by (rule links_mono [OF d(2) sub]) (use urest in auto)
    show "\<exists>pre. succs G x = pre @ vs \<and> set pre \<subseteq> fin ?it ?S"
      if "?it x = Some vs" "x \<notin> set (tl ?S)" for x vs
    proof (cases "x = u")
      case True
      with that show ?thesis by auto
    next
      case False
      with that d(3) [of x vs] sub show ?thesis by auto
    qed
    show "vs = []" if "?it x = Some vs" "x \<notin> set ?S" for x vs
      using that d(4) [of x vs] by (auto split: if_splits)
    show "(x, x) \<notin> (edges_of G)\<^sup>+" if "x \<in> fin ?it ?S" for x
    proof (cases "x \<in> fin it ?S")
      case True
      then show ?thesis by (rule d(5))
    next
      case False
      with new [OF that] have "succs G x = []" by simp
      then show ?thesis by (auto simp: edges_of_def dest: tranclD)
    qed
    show "v \<in> fin ?it ?S \<or> child_of ?S x v" if "(x, v) \<in> VE" for x v
      using d(6) [OF that] sub by auto
    show "(s, x) \<in> (edges_of G)\<^sup>*" if "x \<in> set ?S" for x by (rule d(7) [OF that])
    show "last ?S = s" by (rule d(8)) simp
    show "s \<in> fin ?it ?S" if "?S = []" using that by simp
  qed
qed

lemma child_of_top:
  assumes "distinct (u # rest)" shows "\<not> child_of (u # rest) u v"
proof
  assume "child_of (u # rest) u v"
  then obtain pre post where e: "u # rest = pre @ v # u # post" by (auto simp: child_of_def)
  show False
  proof (cases pre)
    case Nil
    with e assms show False by auto
  next
    case (Cons a pre')
    with e have "rest = pre' @ v # u # post" by simp
    with assms show False by auto
  qed
qed

lemma child_of_pop:
  assumes "child_of (u # rest) x v" shows "v = u \<or> child_of rest x v"
proof -
  from assms obtain pre post where e: "u # rest = pre @ v # x # post" by (auto simp: child_of_def)
  show ?thesis
  proof (cases pre)
    case Nil
    with e show ?thesis by simp
  next
    case (Cons a pre')
    with e have "rest = pre' @ v # x # post" by simp
    then show ?thesis by (auto simp: child_of_def)
  qed
qed

lemma child_of_push: "child_of S x y \<Longrightarrow> child_of (v # S) x y"
  unfolding child_of_def by (metis append_Cons)

lemma step_pop:
  assumes ok: "dfs_ok G s VE it (u # rest)" and u: "it u = Some []"
  shows "dfs_ok G s VE it rest"
proof -
  let ?S = "u # rest"
  note d = dfs_okD [OF ok]
  have urest: "u \<notin> set rest" using d(1) by simp
  have sub: "fin it ?S \<subseteq> fin it rest" by (cases rest) (auto simp: fin_def)
  have ufin: "u \<in> fin it ?S" using u urest by (simp add: fin_def)
  have cl: "\<And>x. x \<in> fin it ?S \<Longrightarrow> set (succs G x) \<subseteq> fin it ?S" by (rule fin_closed [OF ok])
  have new: "\<exists>rest'. rest = x # rest' \<and> it x = Some []"
    if "x \<in> fin it rest" "x \<notin> fin it ?S" for x
    using that by (cases rest) (auto simp: fin_def)
  have top: "\<exists>pre. succs G p = pre @ vs \<and> set pre \<subseteq> fin it ?S"
    if "rest = p # rest'" "it p = Some vs" for p rest' vs
  proof -
    from d(2) that(1) obtain pre vs' where
      a: "it p = Some vs'" "succs G p = pre @ u # vs'" "set pre \<subseteq> fin it ?S" by auto
    with that(2) have "succs G p = (pre @ [u]) @ vs" by simp
    moreover have "set (pre @ [u]) \<subseteq> fin it ?S" using a(3) ufin by simp
    ultimately show ?thesis by blast
  qed
  show ?thesis
  proof (rule dfs_okI)
    show "distinct rest" using d(1) by simp
    show "links G it (fin it rest) rest"
    proof (cases rest)
      case Nil
      then show ?thesis by simp
    next
      case (Cons p rest')
      with d(2) have "links G it (fin it ?S) rest" by simp
      then show ?thesis by (rule links_mono [OF _ sub]) simp
    qed
    show "\<exists>pre. succs G x = pre @ vs \<and> set pre \<subseteq> fin it rest"
      if "it x = Some vs" "x \<notin> set (tl rest)" for x vs
    proof (cases "x \<in> set rest")
      case False
      with d(3) [OF that(1)] sub show ?thesis by auto
    next
      case True
      with that(2) obtain rest' where "rest = x # rest'" by (cases rest) auto
      from top [OF this that(1)] sub show ?thesis by blast
    qed
    show "vs = []" if "it x = Some vs" "x \<notin> set rest" for x vs
      using that u d(4) [of x vs] by (cases "x = u") auto
    show "(x, x) \<notin> (edges_of G)\<^sup>+" if "x \<in> fin it rest" for x
    proof (cases "x \<in> fin it ?S")
      case True
      then show ?thesis by (rule d(5))
    next
      case False
      from new [OF that False] obtain rest' where r: "rest = x # rest'" "it x = Some []" by auto
      from top [OF this] have "set (succs G x) \<subseteq> fin it ?S" by auto
      from closed_no_cycle [of "fin it ?S" G x, OF cl this False] show ?thesis .
    qed
    show "v \<in> fin it rest \<or> child_of rest x v" if "(x, v) \<in> VE" for x v
      using d(6) [OF that] sub ufin child_of_pop [of u rest x v] by auto
    show "(s, x) \<in> (edges_of G)\<^sup>*" if "x \<in> set rest" for x using d(7) [of x] that by simp
    show "last rest = s" if "rest \<noteq> []" using d(8) that by simp
    show "s \<in> fin it rest" if "rest = []" using d(8) that u by (simp add: fin_def)
  qed
qed

lemma step_skip:
  assumes ok: "dfs_ok G s VE it (u # rest)" and u: "it u = Some (v # vs)" and ve: "(u, v) \<in> VE"
  shows "dfs_ok G s VE (it(u \<mapsto> vs)) (u # rest)"
proof -
  let ?S = "u # rest" and ?it = "it(u \<mapsto> vs)"
  note d = dfs_okD [OF ok]
  have urest: "u \<notin> set rest" using d(1) by simp
  have sub: "fin it ?S \<subseteq> fin ?it ?S" using u by (auto simp: fin_def)
  have unfin: "u \<notin> fin it ?S" using u by (simp add: fin_def)
  have cl: "\<And>x. x \<in> fin it ?S \<Longrightarrow> set (succs G x) \<subseteq> fin it ?S" by (rule fin_closed [OF ok])
  have vfin: "v \<in> fin it ?S" using d(6) [OF ve] child_of_top [OF d(1)] by auto
  from d(3) [OF u] urest obtain pre where pre: "succs G u = pre @ v # vs" "set pre \<subseteq> fin it ?S"
    by auto
  have top: "succs G u = (pre @ [v]) @ vs" "set (pre @ [v]) \<subseteq> fin it ?S"
    using pre vfin by simp_all
  have new: "x = u \<and> vs = []" if "x \<in> fin ?it ?S" "x \<notin> fin it ?S" for x
    using that by (auto simp: fin_def split: if_splits)
  show ?thesis
  proof (rule dfs_okI)
    show "distinct ?S" by (rule d(1))
    show "links G ?it (fin ?it ?S) ?S"
      by (rule links_mono [OF d(2) sub]) (use urest in auto)
    show "\<exists>pre. succs G x = pre @ ws \<and> set pre \<subseteq> fin ?it ?S"
      if "?it x = Some ws" "x \<notin> set (tl ?S)" for x ws
    proof (cases "x = u")
      case True
      with that top sub show ?thesis by (metis fun_upd_same option.inject subset_trans)
    next
      case False
      with that d(3) [of x ws] sub show ?thesis by auto
    qed
    show "ws = []" if "?it x = Some ws" "x \<notin> set ?S" for x ws
      using that d(4) [of x ws] by (auto split: if_splits)
    show "(x, x) \<notin> (edges_of G)\<^sup>+" if "x \<in> fin ?it ?S" for x
    proof (cases "x \<in> fin it ?S")
      case True
      then show ?thesis by (rule d(5))
    next
      case False
      from new [OF that False] top have "set (succs G x) \<subseteq> fin it ?S" by simp
      from closed_no_cycle [of "fin it ?S" G x, OF cl this False] show ?thesis .
    qed
    show "y \<in> fin ?it ?S \<or> child_of ?S x y" if "(x, y) \<in> VE" for x y
      using d(6) [OF that] sub by auto
    show "(s, x) \<in> (edges_of G)\<^sup>*" if "x \<in> set ?S" for x by (rule d(7) [OF that])
    show "last ?S = s" by (rule d(8)) simp
    show "s \<in> fin ?it ?S" if "?S = []" using that by simp
  qed
qed

lemma step_push:
  assumes ok: "dfs_ok G s VE it (u # rest)" and u: "it u = Some (v # vs)"
    and v: "v \<notin> set (u # rest)"
  shows "dfs_ok G s (insert (u, v) VE) (it(u \<mapsto> vs)) (v # u # rest)"
proof -
  let ?S = "u # rest" and ?it = "it(u \<mapsto> vs)"
  note d = dfs_okD [OF ok]
  have urest: "u \<notin> set rest" using d(1) by simp
  have eq: "fin ?it (v # ?S) = fin it ?S" using u by (auto simp: fin_def)
  from d(3) [OF u] urest obtain pre where pre: "succs G u = pre @ v # vs" "set pre \<subseteq> fin it ?S"
    by auto
  show ?thesis
  proof (rule dfs_okI)
    show "distinct (v # ?S)" using d(1) v by simp
    have "links G ?it (fin it ?S) ?S"
      by (rule links_mono [OF d(2) subset_refl]) (use urest in auto)
    with pre show "links G ?it (fin ?it (v # ?S)) (v # ?S)" by (auto simp: eq)
    show "\<exists>pre. succs G x = pre @ ws \<and> set pre \<subseteq> fin ?it (v # ?S)"
      if "?it x = Some ws" "x \<notin> set (tl (v # ?S))" for x ws
      using that d(3) [of x ws] by (auto simp: eq split: if_splits)
    show "ws = []" if "?it x = Some ws" "x \<notin> set (v # ?S)" for x ws
      using that d(4) [of x ws] by (auto split: if_splits)
    show "(x, x) \<notin> (edges_of G)\<^sup>+" if "x \<in> fin ?it (v # ?S)" for x
      using that d(5) [of x] by (simp add: eq)
    show "y \<in> fin ?it (v # ?S) \<or> child_of (v # ?S) x y" if "(x, y) \<in> insert (u, v) VE" for x y
    proof (cases "(x, y) = (u, v)")
      case True
      then have "child_of (v # ?S) x y" unfolding child_of_def by (metis append_Nil prod.inject)
      then show ?thesis ..
    next
      case False
      with that have "(x, y) \<in> VE" by auto
      from d(6) [OF this] child_of_push [of ?S x y v] show ?thesis by (auto simp: eq)
    qed
    show "(s, x) \<in> (edges_of G)\<^sup>*" if "x \<in> set (v # ?S)" for x
    proof (cases "x = v")
      case True
      have "(u, v) \<in> edges_of G" using pre(1) by (simp add: edges_of_def)
      with d(7) [of u] True show ?thesis by auto
    next
      case False
      with that d(7) [of x] show ?thesis by simp
    qed
    show "last (v # ?S) = s" using d(8) by simp
    show "s \<in> fin ?it (v # ?S)" if "v # ?S = []" using that by simp
  qed
qed

lemma visit_inv:
  assumes "dfs_inv G s st" "stack st = u # rest"
  shows "dfs_inv G s (visit G u st)" and "map_of (edges_it (visit G u st)) u \<noteq> None"
proof -
  from assms(1) have V: "visited_nodes st = dom (map_of (edges_it st))"
    and ok: "dfs_ok G s (visited_edges st) (map_of (edges_it st)) (stack st)"
    by (simp_all add: dfs_inv_def)
  show "dfs_inv G s (visit G u st)"
  proof (cases "u \<in> visited_nodes st")
    case True
    with assms(1) show ?thesis by (simp add: visit_def)
  next
    case False
    with V have "map_of (edges_it st) u = None" by auto
    from step_visit [OF ok [unfolded assms(2)] this] False V assms(2)
    show ?thesis by (simp add: visit_def dfs_inv_def update_conv')
  qed
  show "map_of (edges_it (visit G u st)) u \<noteq> None"
    using V by (auto simp: visit_def update_conv')
qed

lemma stop_no_cycle:
  assumes "dfs_ok G s VE it []"
  shows "no_cycle_from G s"
  unfolding no_cycle_from_def
proof (intro allI impI)
  fix x assume r: "(s, x) \<in> (edges_of G)\<^sup>*"
  have "s \<in> fin it []" by (rule dfs_okD(9) [OF assms refl])
  from closed_reach [of "fin it []" G, OF fin_closed [OF assms] r this]
  show "(x, x) \<notin> (edges_of G)\<^sup>+" by (rule dfs_okD(5) [OF assms])
qed

lemma edge_dfs_next_post:
  "dfs_inv G s st \<Longrightarrow> next_post G s st (edge_dfs_next G st)"
proof (induction G st rule: edge_dfs_next.induct)
  case (1 G st)
  show ?case
  proof (cases "stack st")
    case Nil
    with "1.prems" have "dfs_ok G s (visited_edges st) (map_of (edges_it st)) []"
      by (simp add: dfs_inv_def)
    from stop_no_cycle [OF this] Nil show ?thesis
      by (simp add: edge_dfs_next.simps [of G st] next_post_def)
  next
    case (Cons u rest)
    let ?st1 = "visit G u st"
    note inv1 = visit_inv [OF "1.prems" Cons]
    from inv1(1) have V1: "visited_nodes ?st1 = dom (map_of (edges_it ?st1))"
      and ok1: "dfs_ok G s (visited_edges ?st1) (map_of (edges_it ?st1)) (u # rest)"
      using Cons by (simp_all add: dfs_inv_def)
    from inv1(2) obtain it where Some: "map_of (edges_it ?st1) u = Some it" by auto
    show ?thesis
    proof (cases it)
      case Nil
      let ?st2 = "?st1\<lparr>stack := rest\<rparr>"
      have e: "edge_dfs_next G st = edge_dfs_next G ?st2"
        using Cons Some Nil by (simp add: edge_dfs_next.simps [of G st])
      have "dfs_inv G s ?st2"
        using step_pop [OF ok1 Some [unfolded Nil]] V1 by (simp add: dfs_inv_def)
      from "1.IH"(1) [OF Cons Some Nil this] have p: "next_post G s ?st2 (edge_dfs_next G ?st2)" .
      show ?thesis
      proof (cases "edge_dfs_next G ?st2")
        case (Yield e' st')
        with p obtain pre rest' where
          "rest = pre @ fst e' # rest'" "stack st' = snd e' # fst e' # rest'"
          "e' \<in> edges_of G" "snd e' \<notin> set (fst e' # rest') \<longrightarrow> dfs_inv G s st'"
          by (auto simp: next_post_def)
        then have "stack st = (u # pre) @ fst e' # rest' \<and> stack st' = snd e' # fst e' # rest'
            \<and> e' \<in> edges_of G \<and> (snd e' \<notin> set (fst e' # rest') \<longrightarrow> dfs_inv G s st')"
          using Cons by simp
        then show ?thesis unfolding e Yield next_post_def by (simp only: generated.case) blast
      qed (use p e in \<open>simp_all add: next_post_def\<close>)
    next
      case (Cons v vs)
      note it = this
      show ?thesis
      proof (cases "(u, v) \<in> visited_edges ?st1")
        case True
        let ?st2 = "?st1\<lparr>edges_it := AList.update u vs (edges_it ?st1)\<rparr>"
        have e: "edge_dfs_next G st = edge_dfs_next G ?st2"
          using \<open>stack st = u # rest\<close> Some it True by (simp add: edge_dfs_next.simps [of G st])
        have "dfs_inv G s ?st2"
          using step_skip [OF ok1 Some [unfolded it] True] V1 Some \<open>stack st = u # rest\<close>
          by (auto simp: dfs_inv_def update_conv')
        from "1.IH"(2) [OF \<open>stack st = u # rest\<close> Some it _ this] True
        have p: "next_post G s ?st2 (edge_dfs_next G ?st2)" by simp
        show ?thesis
        proof (cases "edge_dfs_next G ?st2")
          case (Yield e' st')
          with p \<open>stack st = u # rest\<close> show ?thesis unfolding e by (simp add: next_post_def)
        qed (use p e in \<open>simp_all add: next_post_def\<close>)
      next
        case False
        let ?st' = "?st1\<lparr>edges_it := AList.update u vs (edges_it ?st1),
                         visited_edges := insert (u, v) (visited_edges ?st1),
                         stack := v # u # rest\<rparr>"
        have e: "edge_dfs_next G st = Yield (u, v) ?st'"
          using \<open>stack st = u # rest\<close> Some it False by (simp add: edge_dfs_next.simps [of G st])
        from dfs_okD(3) [OF ok1 Some] dfs_okD(1) [OF ok1] it
        have uv: "(u, v) \<in> edges_of G" by (auto simp: edges_of_def)
        have "dfs_inv G s ?st'" if "v \<notin> set (u # rest)"
          using step_push [OF ok1 Some [unfolded it] that] V1 Some
          by (auto simp: dfs_inv_def update_conv')
        with uv \<open>stack st = u # rest\<close> show ?thesis
          unfolding e next_post_def by (simp only: generated.case) (rule exI [of _ "[]"], simp)
      qed
    qed
  qed
qed

lemma path_of_hd: "path_of (t # rest) \<noteq> [] \<Longrightarrow> snd (hd (path_of (t # rest))) = t"
  by (cases rest) simp_all

lemma path_of_fst: "fst ` set (path_of S) = set (tl S)"
  by (induction S rule: path_of.induct) auto

lemma path_of_append: "set (path_of (t # rest)) \<subseteq> set (path_of (pre @ t # rest))"
proof (induction pre)
  case Nil
  show ?case by simp
next
  case (Cons a pre)
  then show ?case by (cases "pre @ t # rest") auto
qed

lemma links_path: "links G it F S \<Longrightarrow> set (path_of S) \<subseteq> edges_of G"
  by (induction G it F S rule: links.induct) (auto simp: edges_of_def)

lemma is_path_snoc:
  "is_path xs \<Longrightarrow> xs = [] \<or> snd (last xs) = fst e \<Longrightarrow> is_path (xs @ [e])"
  by (induction xs rule: is_path.induct) auto

lemma is_path_rev_path_of: "is_path (rev (path_of S))"
proof (induction S rule: path_of.induct)
  case (1 c p rest)
  have "rev (path_of (p # rest)) = [] \<or> snd (last (rev (path_of (p # rest)))) = p"
    using path_of_hd [of p rest] by (cases "path_of (p # rest) = []") (simp_all add: last_rev)
  then have "is_path (rev (path_of (p # rest)) @ [(p, c)])"
    by (intro is_path_snoc "1.IH") simp
  then show ?case by simp
qed simp_all

lemma is_path_suffix: "is_path (xs @ ys) \<Longrightarrow> is_path ys"
proof (induction xs)
  case (Cons a xs)
  then show ?case by (cases "xs @ ys") auto
qed simp

lemma is_path_trancl:
  "is_path c \<Longrightarrow> c \<noteq> [] \<Longrightarrow> set c \<subseteq> E \<Longrightarrow> (fst (hd c), snd (last c)) \<in> E\<^sup>+"
proof (induction c rule: is_path.induct)
  case (1 e f es)
  then have "(fst (hd (f # es)), snd (last (f # es))) \<in> E\<^sup>+" by simp
  moreover have "(fst e, fst f) \<in> E" using "1.prems" by (cases e) auto
  ultimately show ?case by (simp add: trancl_into_trancl2)
next
  case (2 e)
  then show ?case by (cases e) auto
qed simp

lemma backtrack_path:
  "distinct (pre @ t # rest) \<Longrightarrow> pre \<noteq> [] \<Longrightarrow>
   backtrack t (path_of (pre @ t # rest)) (set (pre @ t # rest))
     = Inr (path_of (t # rest), set (t # rest))"
proof (induction pre)
  case Nil
  then show ?case by simp
next
  case (Cons c pre)
  show ?case
  proof (cases pre)
    case Nil
    with Cons.prems show ?thesis by (cases rest) auto
  next
    case (Cons c' pre')
    with Cons.prems have ne: "c' \<noteq> t" by auto
    have s: "set (c # pre @ t # rest) - {c} = set (pre @ t # rest)"
      using Cons.prems by auto
    from Cons.IH Cons.prems Cons have
      "backtrack t (path_of (pre @ t # rest)) (set (pre @ t # rest))
         = Inr (path_of (t # rest), set (t # rest))" by simp
    moreover have "snd (hd (path_of (c' # pre' @ t # rest))) = c'"
      by (rule path_of_hd) (cases pre', simp_all)
    ultimately show ?thesis using Cons ne s by (simp del: set_append)
  qed
qed

lemma rewind:
  assumes d: "distinct S" and S: "S = pre @ t # rest"
    and ph: "ph = (if tl S = [] then None else Some (hd S))"
  shows "(if ph \<noteq> None \<and> Some t \<noteq> ph then backtrack t (path_of S) (set S)
          else Inr (path_of S, set S)) = Inr (path_of (t # rest), set (t # rest))"
proof (cases pre)
  case Nil
  with S ph show ?thesis by auto
next
  case (Cons c pre')
  with d S have "c \<noteq> t" by auto
  with Cons S ph have "ph \<noteq> None \<and> Some t \<noteq> ph" by auto
  moreover from backtrack_path [of pre t rest] d S Cons
  have "backtrack t (path_of S) (set S) = Inr (path_of (t # rest), set (t # rest))" by simp
  ultimately show ?thesis by simp
qed

lemma last_dropWhile: "dropWhile P xs \<noteq> [] \<Longrightarrow> last (dropWhile P xs) = last xs"
  by (metis last_appendR takeWhile_dropWhile_id)

lemma trim_cycle_good:
  assumes h: "h \<in> set (t # rest)" and E: "set (path_of (t # rest)) \<subseteq> E"
    and th: "(t, h) \<in> E"
  defines "c \<equiv> trim_cycle h (rev ((t, h) # path_of (t # rest)))"
  shows "c \<noteq> []" "set c \<subseteq> E" "is_path c" "snd (last c) = h" "fst (hd c) = h"
proof -
  let ?P = "rev (path_of (t # rest)) @ [(t, h)]"
  let ?d = "dropWhile (\<lambda>edge. fst edge \<noteq> h) ?P"
  have "rev (path_of (t # rest)) = [] \<or> snd (last (rev (path_of (t # rest)))) = t"
    using path_of_hd [of t rest] by (cases "path_of (t # rest) = []") (simp_all add: last_rev)
  then have P: "is_path ?P" by (intro is_path_snoc is_path_rev_path_of) simp
  have "\<exists>e \<in> set ?P. fst e = h"
  proof (cases "h = t")
    case True
    then show ?thesis by simp
  next
    case False
    with h have "h \<in> set (tl (t # rest))" by simp
    then have "h \<in> fst ` set (path_of (t # rest))" by (simp only: path_of_fst)
    then show ?thesis by auto
  qed
  then have ne: "?d \<noteq> []" by (simp add: dropWhile_eq_Nil_conv del: dropWhile_append)
  have "rev ((t, h) # path_of (t # rest)) = ?P" by simp
  with ne have c: "c = ?d" by (simp only: c_def trim_cycle_def if_False)
  show "c \<noteq> []" using ne c by simp
  show "set c \<subseteq> E" unfolding c using E th set_dropWhileD [of _ "\<lambda>edge. fst edge \<noteq> h" ?P] by auto
  show "is_path c" unfolding c using P is_path_suffix [of "takeWhile (\<lambda>edge. fst edge \<noteq> h) ?P" ?d]
    by simp
  show "snd (last c)  = h" unfolding c using last_dropWhile [OF ne] by simp
  show "fst (hd c) = h" unfolding c using hd_dropWhile [OF ne] by simp
qed

lemma find_cycle_loop_post:
  "dfs_inv G s gen \<Longrightarrow> fc_rel gen fc \<Longrightarrow> explored = {} \<Longrightarrow>
   (case find_cycle_loop G explored gen fc of
      NetworkXNoCycle \<Rightarrow> no_cycle_from G s
    | Raised e \<Rightarrow> False
    | Cycle c \<Rightarrow> good_cycle G s c)"
proof (induction G explored gen fc rule: find_cycle_loop.induct)
  case (1 G explored gen fc)
  note ex = \<open>explored = {}\<close>
  from edge_dfs_next_post [OF "1.prems"(1)] have p: "next_post G s gen (edge_dfs_next G gen)" .
  from "1.prems"(1) have ok: "dfs_ok G s (visited_edges gen) (map_of (edges_it gen)) (stack gen)"
    by (simp add: dfs_inv_def)
  show ?case
  proof (cases "edge_dfs_next G gen")
    case StopIteration
    with p show ?thesis by (simp add: find_cycle_loop.simps [of G _ gen fc] next_post_def)
  next
    case (Raise e)
    with p show ?thesis by (simp add: next_post_def)
  next
    case (Yield edge gen')
    obtain t h where edge: "edge = (t, h)" by (cases edge)
    from p Yield edge obtain pre rest where
      S: "stack gen = pre @ t # rest" and S': "stack gen' = h # t # rest"
      and E: "(t, h) \<in> edges_of G" and inv': "h \<notin> set (t # rest) \<Longrightarrow> dfs_inv G s gen'"
      by (auto simp: next_post_def)
    from "1.prems"(2) have fc: "path_edges fc = path_of (stack gen)"
      "active_nodes fc = set (stack gen)"
      "previous_head fc = (if tl (stack gen) = [] then None else Some (hd (stack gen)))"
      by (simp_all add: fc_rel_def)
    from rewind [OF dfs_okD(1) [OF ok] S fc(3)]
    have rw: "(if previous_head fc \<noteq> None \<and> Some (fst edge) \<noteq> previous_head fc
               then backtrack (fst edge) (path_edges fc) (active_nodes fc)
               else Inr (path_edges fc, active_nodes fc)) = Inr (path_of (t # rest), set (t # rest))"
      by (simp only: fc(1,2) edge fst_conv)
    note eq = find_cycle_loop.simps [of G explored gen fc,
        unfolded Yield generated.case rw sum.case prod.case]
    show ?thesis
    proof (cases "h \<in> set (t # rest)")
      case True
      have r: "find_cycle_loop G explored gen fc = Cycle (trim_cycle h (rev ((t, h) # path_of (t # rest))))"
        using True edge ex by (subst eq) (simp del: rev.simps)
      have PE: "set (path_of (t # rest)) \<subseteq> edges_of G"
        using links_path [OF dfs_okD(2) [OF ok]] path_of_append [of t rest pre] S by auto
      note g = trim_cycle_good [OF True PE E]
      have "(s, h) \<in> (edges_of G)\<^sup>*" using dfs_okD(7) [OF ok, of h] True S by auto
      with g show ?thesis unfolding r good_cycle_def by (simp del: rev.simps)
    next
      case False
      let ?fc' = "\<lparr>path_edges = edge # path_of (t # rest), seen = insert (snd edge) (seen fc),
                   active_nodes = insert (snd edge) (set (t # rest)),
                   previous_head = Some (snd edge)\<rparr>"
      have r: "find_cycle_loop G explored gen fc = find_cycle_loop G explored gen' ?fc'"
        using False edge ex by (subst eq) simp
      have rel: "fc_rel gen' ?fc'" using S' by (simp add: fc_rel_def edge)
      have "snd edge \<notin> explored" using ex by simp
      moreover have "snd edge \<notin> set (t # rest)" using False edge by simp
      ultimately show ?thesis
        unfolding r using "1.IH"(2) [OF Yield _ rw refl _ inv' [OF False] rel ex] by blast
    qed
  qed
qed

subsection \<open>The removal of the cycles\<close>

lemma map_of_not_key: "s \<notin> fst ` set G \<Longrightarrow> map_of G s = None"
  by (simp add: map_of_eq_None_iff)

lemma succs_not_node: "s \<notin> fst ` set G \<Longrightarrow> succs G s = []"
  by (simp add: succs_def map_of_not_key)

lemma find_cycle_post:
  "(case find_cycle G s of
      NetworkXNoCycle \<Rightarrow> no_cycle_from G s
    | Raised e \<Rightarrow> False
    | Cycle c \<Rightarrow> good_cycle G s c)"
proof (cases "s \<in> fst ` set G")
  case True
  let ?gen = "\<lparr>stack = [s], visited_edges = {}, visited_nodes = {}, edges_it = []\<rparr>"
  let ?fc = "\<lparr>path_edges = [], seen = {s}, active_nodes = {s}, previous_head = None\<rparr>"
  have "dfs_ok G s {} Map.empty [s]"
    by (rule dfs_okI) (simp_all add: fin_def)
  then have "dfs_inv G s ?gen" by (simp add: dfs_inv_def)
  moreover have "fc_rel ?gen ?fc" by (simp add: fc_rel_def)
  ultimately show ?thesis
    using find_cycle_loop_post [of G s ?gen ?fc "{}"] True by (simp add: find_cycle_def)
next
  case False
  have "x = s" if "(s, x) \<in> (edges_of G)\<^sup>*" for x
    using that succs_not_node [OF False]
    by (induction rule: rtrancl_induct) (auto simp: edges_of_def)
  moreover have "(s, s) \<notin> (edges_of G)\<^sup>+"
    using succs_not_node [OF False] by (auto simp: edges_of_def dest: tranclD)
  ultimately have "no_cycle_from G s" by (auto simp: no_cycle_from_def)
  with False show ?thesis by (simp add: find_cycle_def)
qed

lemma good_cycle_closed:
  assumes "good_cycle G s c"
  shows "(fst (hd c), fst (hd c)) \<in> (edges_of G)\<^sup>+"
  using assms is_path_trancl [of c "edges_of G"] by (simp add: good_cycle_def)

lemma no_cycle_from_find_cycle:
  assumes "no_cycle_from G s" shows "find_cycle G s = NetworkXNoCycle"
proof (cases "find_cycle G s")
  case (Cycle c)
  with find_cycle_post [of G s] have g: "good_cycle G s c" by simp
  from good_cycle_closed [OF g] g assms show ?thesis
    by (auto simp: no_cycle_from_def good_cycle_def)
next
  case (Raised e)
  with find_cycle_post [of G s] show ?thesis by simp
qed

lemma succs_update: "succs (AList.update u ws G) x = (if x = u then ws else succs G x)"
  by (simp add: succs_def update_conv')

lemma edges_of_remove_edge:
  "remove_edge u v G = Inr G' \<Longrightarrow> edges_of G' = edges_of G - {(u, v)}"
  by (auto simp: remove_edge_def edges_of_def succs_update split: if_splits)

lemma remove_edge_succeeds:
  "(u, v) \<in> edges_of G \<Longrightarrow> \<exists>G'. remove_edge u v G = Inr G'"
  by (simp add: remove_edge_def edges_of_def)

lemma no_cycle_from_mono:
  assumes "no_cycle_from G s" "edges_of G' \<subseteq> edges_of G"
  shows "no_cycle_from G' s"
  unfolding no_cycle_from_def
proof (intro allI impI)
  fix x assume "(s, x) \<in> (edges_of G')\<^sup>*"
  with assms(2) have "(s, x) \<in> (edges_of G)\<^sup>*" by (meson rtrancl_mono subsetD)
  with assms(1) have "(x, x) \<notin> (edges_of G)\<^sup>+" by (simp add: no_cycle_from_def)
  with assms(2) show "(x, x) \<notin> (edges_of G')\<^sup>+" by (meson trancl_mono)
qed

lemma break_cycles_post:
  "\<exists>G' new. break_cycles G key removed = Inr (G', removed @ new)
     \<and> edges_of G' = edges_of G - set new \<and> no_cycle_from G' key"
proof (induction G key removed rule: break_cycles.induct)
  case (1 G key removed)
  show ?case
  proof (cases "find_cycle G key")
    case NetworkXNoCycle
    with find_cycle_post [of G key] have "no_cycle_from G key" by simp
    with NetworkXNoCycle show ?thesis
      by (subst break_cycles.simps) (auto intro: exI [of _ "[]"])
  next
    case (Raised e)
    with find_cycle_post [of G key] show ?thesis by simp
  next
    case (Cycle c)
    with find_cycle_post [of G key] have g: "good_cycle G key c" by simp
    then obtain e c' where c: "c = e # c'" by (cases c) (auto simp: good_cycle_def)
    from g have "last c \<in> edges_of G" by (auto simp: good_cycle_def)
    then have "(fst (last c), snd (last c)) \<in> edges_of G" by simp
    from remove_edge_succeeds [OF this] obtain G1 where
      r: "remove_edge (fst (last c)) (snd (last c)) G = Inr G1" by blast
    from edges_of_remove_edge [OF r] have E1: "edges_of G1 = edges_of G - {last c}" by simp
    from "1.IH" [OF Cycle c r]
    obtain G' new where
      b: "break_cycles G1 key (removed @ [last c]) = Inr (G', (removed @ [last c]) @ new)"
      and E': "edges_of G' = edges_of G1 - set new" and n: "no_cycle_from G' key"
      by auto
    have "break_cycles G key removed = break_cycles G1 key (removed @ [last c])"
      using Cycle c r by (subst break_cycles.simps) simp
    with b have "break_cycles G key removed = Inr (G', removed @ (last c # new))" by simp
    moreover have "edges_of G' = edges_of G - set (last c # new)" using E' E1 by auto
    ultimately show ?thesis using n by blast
  qed
qed

lemma remove_cycles_post:
  "\<exists>G' new. remove_cycles keys G removed = Inr (G', removed @ new)
     \<and> edges_of G' = edges_of G - set new \<and> (\<forall>k \<in> set keys. no_cycle_from G' k)"
proof (induction keys arbitrary: G removed)
  case Nil
  show ?case by simp
next
  case (Cons key keys)
  from break_cycles_post [of G key removed] obtain G1 new1 where
    b: "break_cycles G key removed = Inr (G1, removed @ new1)"
    and E1: "edges_of G1 = edges_of G - set new1" and n1: "no_cycle_from G1 key" by blast
  from Cons.IH [of G1 "removed @ new1"] obtain G' new where
    r: "remove_cycles keys G1 (removed @ new1) = Inr (G', (removed @ new1) @ new)"
    and E': "edges_of G' = edges_of G1 - set new" and n: "\<forall>k \<in> set keys. no_cycle_from G' k"
    by blast
  have "remove_cycles (key # keys) G removed = Inr (G', removed @ (new1 @ new))"
    using b r by simp
  moreover have "edges_of G' = edges_of G - set (new1 @ new)" using E' E1 by auto
  moreover have "no_cycle_from G' key" by (rule no_cycle_from_mono [OF n1]) (use E' in auto)
  ultimately show ?case using n by (intro exI conjI) (assumption, assumption, simp)
qed

lemma break_cycles_no_cycle:
  "no_cycle_from G key \<Longrightarrow> break_cycles G key removed = Inr (G, removed)"
  by (subst break_cycles.simps) (simp add: no_cycle_from_find_cycle)

lemma remove_cycles_no_cycle:
  "\<forall>k \<in> set keys. no_cycle_from G k \<Longrightarrow> remove_cycles keys G removed = Inr (G, removed)"
  by (induction keys) (simp_all add: break_cycles_no_cycle)

lemma acyclic_no_cycle_from: "acyclic (edges_of G) \<Longrightarrow> no_cycle_from G k"
  by (simp add: acyclic_def no_cycle_from_def)

lemma no_cycle_from_keys_acyclic:
  assumes "\<forall>k \<in> set keys. no_cycle_from G k" "fst ` edges_of G \<subseteq> set keys"
  shows "acyclic (edges_of G)"
  unfolding acyclic_def
proof (intro allI notI)
  fix x assume c: "(x, x) \<in> (edges_of G)\<^sup>+"
  then obtain y where "(x, y) \<in> edges_of G" by (auto dest: tranclD)
  with assms(2) have "x \<in> set keys" by force
  with assms(1) c show False by (auto simp: no_cycle_from_def)
qed

lemma edges_of_add_node: "edges_of (add_node n G) = edges_of G"
proof -
  have "succs (add_node n G) x = succs G x" for x
    by (auto simp: add_node_def succs_def map_add_def map_of_not_key split: option.splits)
  then show ?thesis by (simp add: edges_of_def)
qed

lemma edges_of_add_edge: "edges_of (add_edge e G) = insert e (edges_of G)"
proof -
  let ?G1 = "add_node (snd e) (add_node (fst e) G)"
  have E1: "edges_of ?G1 = edges_of G" by (simp add: edges_of_add_node)
  show ?thesis
  proof (cases "snd e \<in> set (succs ?G1 (fst e))")
    case True
    then have "e \<in> edges_of ?G1" by (cases e) (simp add: edges_of_def)
    with True E1 show ?thesis by (auto simp: add_edge_def Let_def)
  next
    case False
    have "edges_of (AList.update (fst e) (succs ?G1 (fst e) @ [snd e]) ?G1) = insert e (edges_of ?G1)"
      by (cases e) (auto simp: edges_of_def succs_update split: if_splits)
    with False E1 show ?thesis by (simp add: add_edge_def Let_def)
  qed
qed

lemma edges_of_fold_add_edge: "edges_of (fold add_edge es G) = edges_of G \<union> set es"
  by (induction es arbitrary: G) (simp_all add: edges_of_add_edge)

lemma edges_of_Nil: "edges_of [] = {}"
  by (simp add: edges_of_def succs_def)

lemma edges_of_DiGraph: "edges_of (DiGraph es) = set es"
  by (simp add: DiGraph_def edges_of_fold_add_edge edges_of_Nil)

subsection \<open>The dependency map\<close>

lemma remove_empty_entries_filter:
  "fold (\<lambda>(pname, deps) g. if deps = [] then AList.delete pname g else g) xs g
     = filter (\<lambda>(q, e). q \<notin> fst ` {x \<in> set xs. snd x = []}) g"
proof (induction xs arbitrary: g)
  case Nil
  show ?case by simp
next
  case (Cons x xs)
  obtain p d where x: "x = (p, d)" by (cases x)
  show ?case
  proof (cases "d = []")
    case True
    have "fst ` {y \<in> set (x # xs). snd y = []} = insert p (fst ` {y \<in> set xs. snd y = []})"
      using x True by force
    then show ?thesis using x True Cons.IH [of "AList.delete p g"]
      by (auto simp: AList.delete_eq intro!: filter_cong)
  next
    case False
    have "fst ` {y \<in> set (x # xs). snd y = []} = fst ` {y \<in> set xs. snd y = []}"
      using x False by auto
    then show ?thesis using x False Cons.IH [of g] by simp
  qed
qed

lemma remove_empty_entries_subset: "set (remove_empty_entries depGraph) \<subseteq> set depGraph"
  by (auto simp: remove_empty_entries_def remove_empty_entries_filter)

lemma remove_empty_entries_distinct:
  assumes "distinct (map fst depGraph)"
  shows "remove_empty_entries depGraph = filter (\<lambda>(pname, versions). versions \<noteq> []) depGraph"
proof -
  have "(q \<notin> fst ` {x \<in> set depGraph. snd x = []}) = (e \<noteq> [])" if "(q, e) \<in> set depGraph" for q e
  proof
    assume "q \<notin> fst ` {x \<in> set depGraph. snd x = []}"
    with that show "e \<noteq> []" by force
  next
    assume e: "e \<noteq> []"
    show "q \<notin> fst ` {x \<in> set depGraph. snd x = []}"
    proof
      assume "q \<in> fst ` {x \<in> set depGraph. snd x = []}"
      then have "(q, []) \<in> set depGraph" by force
      with that assms have "e = []" by (meson eq_key_imp_eq_value)
      with e show False by simp
    qed
  qed
  then show ?thesis
    unfolding remove_empty_entries_def remove_empty_entries_filter
    by (intro filter_cong) auto
qed

lemma graph_keys_filter:
  "graph_keys (filter (\<lambda>(pname, versions). versions \<noteq> []) depGraph) = graph_keys depGraph"
  by (induction depGraph) (auto simp: graph_keys_def)

lemma graph_edges_mono: "set D \<subseteq> set D' \<Longrightarrow> set (graph_edges D) \<subseteq> set (graph_edges D')"
  by (fastforce simp: graph_edges_def)

lemma graph_edges_keys: "fst ` set (graph_edges D) \<subseteq> set (graph_keys D)"
  by (fastforce simp: graph_edges_def graph_keys_def)

subsection \<open>The cyclic dependencies\<close>

lemma cyclic_lookup_append_removed:
  "cyclic_lookup (append_removed ((n_name, n_ver), removed) cyc) name version
     = (if name = n_name \<and> version = n_ver then cyclic_lookup cyc name version @ [removed]
        else cyclic_lookup cyc name version)"
  by (auto simp: cyclic_lookup_def update_conv' split: option.splits)

lemma recorded_edges_append_removed:
  "recorded_edges (append_removed e cyc) = insert e (recorded_edges cyc)"
proof -
  obtain n v r where e: "e = ((n, v), r)" by (metis surj_pair)
  show ?thesis unfolding e recorded_edges_def
    by (auto simp: cyclic_lookup_append_removed simp del: append_removed.simps split: if_splits)
qed

lemma recorded_edges_fold:
  "recorded_edges (fold append_removed es cyc) = recorded_edges cyc \<union> set es"
  by (induction es arbitrary: cyc) (simp_all add: recorded_edges_append_removed)

lemma recorded_edges_Nil: "recorded_edges [] = {}"
  by (simp add: recorded_edges_def cyclic_lookup_def)

lemma recorded_edges_cyclic_dependencies_of:
  "recorded_edges (cyclic_dependencies_of removed_edges) = set removed_edges"
  by (simp add: cyclic_dependencies_of_def recorded_edges_fold recorded_edges_Nil)

lemma remove_cyclic_dependencies_post:
  "\<exists>G removed_edges. remove_cyclic_dependencies D = Inr (G, removed_edges)
     \<and> edges_of G = set (graph_edges D) - set removed_edges \<and> acyclic (edges_of G)
     \<and> (\<forall>k \<in> set (graph_keys D). no_cycle_from G k)"
proof -
  let ?G0 = "DiGraph (sort (remdups (graph_edges D)))"
  have E0: "edges_of ?G0 = set (graph_edges D)" by (simp add: edges_of_DiGraph)
  from remove_cycles_post [of "graph_keys D" ?G0 "[]"] obtain G new where
    r: "remove_cycles (graph_keys D) ?G0 [] = Inr (G, new)"
    and E: "edges_of G = edges_of ?G0 - set new"
    and n: "\<forall>k \<in> set (graph_keys D). no_cycle_from G k" by auto
  have "fst ` edges_of G \<subseteq> set (graph_keys D)" using E E0 graph_edges_keys [of D] by auto
  from no_cycle_from_keys_acyclic [OF n this] r E E0 n show ?thesis
    by (auto simp: remove_cyclic_dependencies_def)
qed

subsection \<open>The claims on the dependency graph\<close>

text \<open>
  The cleanup deletes the names of the packages that have no version at all. A version
  with an empty list of dependencies is a value inside the dictionary of its package,
  which the loop never looks into: no pair of a name and a version is ever dropped.
\<close>

lemma cleanup_keeps_every_version:
  "distinct (map fst depGraph) \<Longrightarrow> graph_keys (remove_empty_entries depGraph) = graph_keys depGraph"
  by (simp add: remove_empty_entries_distinct graph_keys_filter)

text \<open>
  Claim C2 (the cleanup drops exactly the pairs of a name and a version whose list of
  dependencies is empty). The sources are indeed untouched by the stage, but for the
  dependencies \<^verbatim>\<open>{"A": {"1": []}}\<close> the stage keeps the key of A with its version 1
  and the empty list: the loop tests the dictionary of the versions of A, which is not
  empty.
\<close>

theorem C2_empty_dependency_list_is_kept:
  "clean_up_dependency_graph (lock_of (Some [(''A'', [(''1'', [])])]))
     = Inr ((lock_of (Some [(''A'', [(''1'', [])])]))\<lparr>cyclicDependencies := Some []\<rparr>)"
  by code_simp

text \<open>
  Claim C1 as stated (the removed edge is the last edge of the cycle, which re-enters the
  processed node \<open>k\<close>) fails: with A depending on B, and B and C depending on each other,
  the search from A returns the cycle from B to C and back, whose last edge re-enters B.
\<close>

theorem C1_cycle_away_from_key:
  "find_cycle (DiGraph (sort (remdups (graph_edges deps_tail_cycle)))) (''A'', ''1'')
     = Cycle [((''B'', ''1''), (''C'', ''1'')), ((''C'', ''1''), (''B'', ''1''))]
   \<and> snd (last [((''B'', ''1''), (''C'', ''1'')), ((''C'', ''1''), (''B'', ''1''))])
       \<noteq> (''A'', ''1'')"
  by code_simp

text \<open>
  Claim C1, amended: when \<^verbatim>\<open>find_cycle\<close> returns a cycle for the node \<open>k\<close>, the
  cycle is a path of edges of the live graph that ends in the node it starts from, a
  node that \<open>k\<close> reaches; the edge removed from the live graph is the last edge of the
  cycle and no other, it is appended to the removed edges, and recording it appends its
  target to the list of \<^verbatim>\<open>cyclicDependencies\<close> under the name and the version of its
  origin.
\<close>

theorem C1_last_edge_closes_cycle:
  fixes G :: "node digraph"
  assumes "find_cycle G k = Cycle cycle"
  shows "cycle \<noteq> [] \<and> set cycle \<subseteq> edges_of G \<and> is_path cycle
       \<and> snd (last cycle) = fst (hd cycle) \<and> (k, fst (hd cycle)) \<in> (edges_of G)\<^sup>*
       \<and> (\<exists>G'. remove_edge (fst (last cycle)) (snd (last cycle)) G = Inr G'
               \<and> edges_of G' = edges_of G - {last cycle}
               \<and> break_cycles G k removed_edges
                   = break_cycles G' k (removed_edges @ [last cycle]))
       \<and> cyclic_lookup (append_removed (last cycle) cyc)
             (fst (fst (last cycle))) (snd (fst (last cycle)))
           = cyclic_lookup cyc (fst (fst (last cycle))) (snd (fst (last cycle)))
               @ [snd (last cycle)]"
proof -
  from find_cycle_post [of G k] assms have g: "good_cycle G k cycle" by simp
  then obtain e c' where c: "cycle = e # c'" by (cases cycle) (auto simp: good_cycle_def)
  have "last cycle \<in> set cycle" using c by simp
  with g have "last cycle \<in> edges_of G" unfolding good_cycle_def by blast
  then have "(fst (last cycle), snd (last cycle)) \<in> edges_of G" by simp
  from remove_edge_succeeds [OF this] obtain G' where
    r: "remove_edge (fst (last cycle)) (snd (last cycle)) G = Inr G'" by blast
  from edges_of_remove_edge [OF r] have E: "edges_of G' = edges_of G - {last cycle}" by simp
  have b: "break_cycles G k removed_edges = break_cycles G' k (removed_edges @ [last cycle])"
    using assms c r by (subst break_cycles.simps) simp
  obtain n v d where l: "last cycle = ((n, v), d)" by (metis surj_pair)
  have "cyclic_lookup (append_removed (last cycle) cyc)
          (fst (fst (last cycle))) (snd (fst (last cycle)))
        = cyclic_lookup cyc (fst (fst (last cycle))) (snd (fst (last cycle))) @ [snd (last cycle)]"
    unfolding l by (simp add: cyclic_lookup_append_removed del: append_removed.simps)
  with g r E b show ?thesis unfolding good_cycle_def by blast
qed

text \<open>The theorem of claim C1 at the cycle away from the key A.\<close>

theorem C1_last_edge_closes_cycle_witness:
  "find_cycle (DiGraph (sort (remdups (graph_edges deps_tail_cycle)))) (''A'', ''1'')
     = Cycle [((''B'', ''1''), (''C'', ''1'')), ((''C'', ''1''), (''B'', ''1''))]
   \<and> ((''A'', ''1''), (''B'', ''1''))
       \<in> (edges_of (DiGraph (sort (remdups (graph_edges deps_tail_cycle)))))\<^sup>*
   \<and> (\<exists>G'. remove_edge (''C'', ''1'') (''B'', ''1'')
              (DiGraph (sort (remdups (graph_edges deps_tail_cycle)))) = Inr G'
          \<and> break_cycles (DiGraph (sort (remdups (graph_edges deps_tail_cycle)))) (''A'', ''1'') []
              = break_cycles G' (''A'', ''1'') [((''C'', ''1''), (''B'', ''1''))])
   \<and> cyclic_lookup (append_removed ((''C'', ''1''), (''B'', ''1'')) []) ''C'' ''1''
       = [(''B'', ''1'')]"
proof -
  have fc: "find_cycle (DiGraph (sort (remdups (graph_edges deps_tail_cycle)))) (''A'', ''1'')
     = Cycle [((''B'', ''1''), (''C'', ''1'')), ((''C'', ''1''), (''B'', ''1''))]"
    by code_simp
  from C1_last_edge_closes_cycle [OF fc, of "[]" "[]"]
  have r: "((''A'', ''1''), (''B'', ''1''))
       \<in> (edges_of (DiGraph (sort (remdups (graph_edges deps_tail_cycle)))))\<^sup>*"
    and "\<exists>G'. remove_edge (''C'', ''1'') (''B'', ''1'')
              (DiGraph (sort (remdups (graph_edges deps_tail_cycle)))) = Inr G'
          \<and> edges_of G' = edges_of (DiGraph (sort (remdups (graph_edges deps_tail_cycle))))
                - {((''C'', ''1''), (''B'', ''1''))}
          \<and> break_cycles (DiGraph (sort (remdups (graph_edges deps_tail_cycle)))) (''A'', ''1'') []
              = break_cycles G' (''A'', ''1'') [((''C'', ''1''), (''B'', ''1''))]"
    and l: "cyclic_lookup (append_removed ((''C'', ''1''), (''B'', ''1'')) []) ''C'' ''1''
       = cyclic_lookup [] ''C'' ''1'' @ [(''B'', ''1'')]"
    by simp_all
  then have "\<exists>G'. remove_edge (''C'', ''1'') (''B'', ''1'')
              (DiGraph (sort (remdups (graph_edges deps_tail_cycle)))) = Inr G'
          \<and> break_cycles (DiGraph (sort (remdups (graph_edges deps_tail_cycle)))) (''A'', ''1'') []
              = break_cycles G' (''A'', ''1'') [((''C'', ''1''), (''B'', ''1''))]"
    by blast
  moreover have "cyclic_lookup [] ''C'' ''1'' = []" by (simp add: cyclic_lookup_def)
  ultimately show ?thesis using fc r l by simp
qed

text \<open>
  Claim C5 as stated (after the removal of the cycles the dependencies of the lock form
  an acyclic graph) fails: with A and B depending on each other, the dependencies of the
  lock come out as they went in, cycle included; the edge from B to A is only recorded in
  \<^verbatim>\<open>cyclicDependencies\<close>.
\<close>

theorem C5_dependencies_keep_the_cycle:
  "clean_up_dependency_graph (lock_of (Some deps_two_cycle))
     = Inr ((lock_of (Some deps_two_cycle))
              \<lparr>cyclicDependencies := Some [(''B'', [(''1'', [(''A'', ''1'')])])]\<rparr>)
   \<and> dependencies (generic ((lock_of (Some deps_two_cycle))
              \<lparr>cyclicDependencies := Some [(''B'', [(''1'', [(''A'', ''1'')])])]\<rparr>))
       = Some deps_two_cycle
   \<and> \<not> acyclic (set (graph_edges deps_two_cycle))"
proof -
  have "clean_up_dependency_graph (lock_of (Some deps_two_cycle))
     = Inr ((lock_of (Some deps_two_cycle))
              \<lparr>cyclicDependencies := Some [(''B'', [(''1'', [(''A'', ''1'')])])]\<rparr>)"
    by code_simp
  moreover have "\<not> acyclic (set (graph_edges deps_two_cycle))"
    by (auto simp: graph_edges_def deps_two_cycle_def)
  ultimately show ?thesis by (simp add: lock_of_def)
qed

text \<open>
  Claim C5, amended: for every map of dependencies the stage ends without an error, the
  dependencies of the lock are the cleaned map with every edge still in it, and the live
  graph after the removal of the cycles is acyclic; its edges are the edges of the
  dependencies that \<^verbatim>\<open>cyclicDependencies\<close> does not record.
\<close>

theorem C5_live_graph_is_acyclic:
  assumes "dependencies (generic lock) = Some depGraph"
  shows "\<exists>G removed_edges.
      remove_cyclic_dependencies (remove_empty_entries depGraph) = Inr (G, removed_edges)
    \<and> clean_up_dependency_graph lock
        = Inr (lock\<lparr>generic := (generic lock)
                       \<lparr>dependencies := Some (remove_empty_entries depGraph)\<rparr>,
                     cyclicDependencies := Some (cyclic_dependencies_of removed_edges)\<rparr>)
    \<and> acyclic (edges_of G)
    \<and> edges_of G = set (graph_edges (remove_empty_entries depGraph))
                     - recorded_edges (cyclic_dependencies_of removed_edges)"
proof -
  from remove_cyclic_dependencies_post [of "remove_empty_entries depGraph"]
  obtain G removed_edges where
    r: "remove_cyclic_dependencies (remove_empty_entries depGraph) = Inr (G, removed_edges)"
    and E: "edges_of G = set (graph_edges (remove_empty_entries depGraph)) - set removed_edges"
    and a: "acyclic (edges_of G)" by blast
  have "clean_up_dependency_graph lock
        = Inr (lock\<lparr>generic := (generic lock)
                       \<lparr>dependencies := Some (remove_empty_entries depGraph)\<rparr>,
                     cyclicDependencies := Some (cyclic_dependencies_of removed_edges)\<rparr>)"
    using assms r by (simp add: clean_up_dependency_graph_def)
  with r E a show ?thesis by (simp add: recorded_edges_cyclic_dependencies_of)
qed

text \<open>The theorem of claim C5 at the lock with A and B depending on each other.\<close>

theorem C5_live_graph_is_acyclic_witness:
  "dependencies (generic (lock_of (Some deps_two_cycle))) = Some deps_two_cycle
   \<and> (\<exists>G removed_edges.
        remove_cyclic_dependencies (remove_empty_entries deps_two_cycle) = Inr (G, removed_edges)
      \<and> acyclic (edges_of G)
      \<and> edges_of G = set (graph_edges (remove_empty_entries deps_two_cycle))
                     - recorded_edges (cyclic_dependencies_of removed_edges))"
proof -
  have d: "dependencies (generic (lock_of (Some deps_two_cycle))) = Some deps_two_cycle"
    by (simp add: lock_of_def)
  from C5_live_graph_is_acyclic [OF d] d show ?thesis by blast
qed

lemma acyclic_remove_cyclic_dependencies:
  assumes "acyclic (set (graph_edges D))"
  shows "remove_cyclic_dependencies D = Inr (DiGraph (sort (remdups (graph_edges D))), [])"
proof -
  let ?G0 = "DiGraph (sort (remdups (graph_edges D)))"
  have "edges_of ?G0 = set (graph_edges D)" by (simp add: edges_of_DiGraph)
  with assms have "\<forall>k \<in> set (graph_keys D). no_cycle_from ?G0 k"
    by (simp add: acyclic_no_cycle_from)
  from remove_cycles_no_cycle [OF this] show ?thesis
    by (simp add: remove_cyclic_dependencies_def)
qed

lemma cyclic_dependencies_of_Nil: "cyclic_dependencies_of [] = []"
  by (simp add: cyclic_dependencies_of_def)

text \<open>
  Claim C6: for a map of dependencies with no directed cycle the removal of the cycles
  removes nothing (the live graph is the graph that was built, no edge is removed and
  \<^verbatim>\<open>cyclicDependencies\<close> is the empty dictionary); and for every map of dependencies,
  running the loops of lines 309 to 321 a second time, on the live graph they produced,
  leaves this graph as it is and removes no further edge.
\<close>

theorem C6_no_cycle_no_removal:
  "(acyclic (set (graph_edges depGraph)) \<longrightarrow>
      remove_cyclic_dependencies depGraph
        = Inr (DiGraph (sort (remdups (graph_edges depGraph))), [])
    \<and> (dependencies (generic lock) = Some depGraph \<longrightarrow>
         clean_up_dependency_graph lock
           = Inr (lock\<lparr>generic := (generic lock)
                          \<lparr>dependencies := Some (remove_empty_entries depGraph)\<rparr>,
                        cyclicDependencies := Some []\<rparr>)))
   \<and> (\<forall>G removed_edges.
        remove_cyclic_dependencies depGraph = Inr (G, removed_edges) \<longrightarrow>
        remove_cycles (graph_keys depGraph) G [] = Inr (G, []))"
proof (intro conjI impI allI)
  assume a: "acyclic (set (graph_edges depGraph))"
  then show "remove_cyclic_dependencies depGraph
        = Inr (DiGraph (sort (remdups (graph_edges depGraph))), [])"
    by (rule acyclic_remove_cyclic_dependencies)
  assume d: "dependencies (generic lock) = Some depGraph"
  have "set (graph_edges (remove_empty_entries depGraph)) \<subseteq> set (graph_edges depGraph)"
    by (rule graph_edges_mono [OF remove_empty_entries_subset])
  with a have "acyclic (set (graph_edges (remove_empty_entries depGraph)))"
    by (rule acyclic_subset)
  from acyclic_remove_cyclic_dependencies [OF this] d
  show "clean_up_dependency_graph lock
           = Inr (lock\<lparr>generic := (generic lock)
                          \<lparr>dependencies := Some (remove_empty_entries depGraph)\<rparr>,
                        cyclicDependencies := Some []\<rparr>)"
    by (simp add: clean_up_dependency_graph_def cyclic_dependencies_of_Nil)
next
  fix G removed_edges
  assume r: "remove_cyclic_dependencies depGraph = Inr (G, removed_edges)"
  from remove_cyclic_dependencies_post [of depGraph] r
  have "\<forall>k \<in> set (graph_keys depGraph). no_cycle_from G k" by auto
  from remove_cycles_no_cycle [OF this]
  show "remove_cycles (graph_keys depGraph) G [] = Inr (G, [])" .
qed

text \<open>
  The theorem of claim C6 at the dependencies with A depending on B only, which have no
  cycle, and at the live graph left for A and B depending on each other.
\<close>

theorem C6_no_cycle_no_removal_witness:
  "acyclic (set (graph_edges deps_chain))
   \<and> remove_cyclic_dependencies deps_chain
       = Inr ([((''A'', ''1''), [(''B'', ''1'')]), ((''B'', ''1''), [])], [])
   \<and> clean_up_dependency_graph (lock_of (Some deps_chain))
       = Inr ((lock_of (Some deps_chain))\<lparr>cyclicDependencies := Some []\<rparr>)
   \<and> remove_cyclic_dependencies deps_two_cycle
       = Inr ([((''A'', ''1''), [(''B'', ''1'')]), ((''B'', ''1''), [])],
              [((''B'', ''1''), (''A'', ''1''))])
   \<and> remove_cycles (graph_keys deps_two_cycle)
        [((''A'', ''1''), [(''B'', ''1'')]), ((''B'', ''1''), [])] []
       = Inr ([((''A'', ''1''), [(''B'', ''1'')]), ((''B'', ''1''), [])], [])"
proof -
  have "acyclic ({} :: (node \<times> node) set)" by (simp add: acyclic_def)
  then have a: "acyclic (set (graph_edges deps_chain))"
    by (simp add: graph_edges_def deps_chain_def)
  have g: "DiGraph (sort (remdups (graph_edges deps_chain)))
             = [((''A'', ''1''), [(''B'', ''1'')]), ((''B'', ''1''), [])]"
    by code_simp
  have e: "remove_empty_entries deps_chain = deps_chain"
    by (simp add: remove_empty_entries_def deps_chain_def)
  have d: "dependencies (generic (lock_of (Some deps_chain))) = Some deps_chain"
    by (simp add: lock_of_def)
  have r: "remove_cyclic_dependencies deps_two_cycle
       = Inr ([((''A'', ''1''), [(''B'', ''1'')]), ((''B'', ''1''), [])],
              [((''B'', ''1''), (''A'', ''1''))])"
    by code_simp
  from C6_no_cycle_no_removal [of deps_chain "lock_of (Some deps_chain)"] a d
  have 1: "remove_cyclic_dependencies deps_chain
        = Inr (DiGraph (sort (remdups (graph_edges deps_chain))), [])"
    and 2: "clean_up_dependency_graph (lock_of (Some deps_chain))
           = Inr ((lock_of (Some deps_chain))\<lparr>generic := (generic (lock_of (Some deps_chain)))
                          \<lparr>dependencies := Some (remove_empty_entries deps_chain)\<rparr>,
                        cyclicDependencies := Some []\<rparr>)"
    by blast+
  from C6_no_cycle_no_removal [of deps_two_cycle "lock_of None"] r
  have 3: "remove_cycles (graph_keys deps_two_cycle)
        [((''A'', ''1''), [(''B'', ''1'')]), ((''B'', ''1''), [])] []
       = Inr ([((''A'', ''1''), [(''B'', ''1'')]), ((''B'', ''1''), [])], [])"
    by blast
  have "(lock_of (Some deps_chain))\<lparr>generic := (generic (lock_of (Some deps_chain)))
                          \<lparr>dependencies := Some (remove_empty_entries deps_chain)\<rparr>,
                        cyclicDependencies := Some []\<rparr>
        = (lock_of (Some deps_chain))\<lparr>cyclicDependencies := Some []\<rparr>"
    by (simp add: e lock_of_def)
  with a 1 2 3 r g show ?thesis by simp
qed

subsection \<open>The combined hash\<close>

lemma up_to_last_eq_last: "up_to_last_eq line \<noteq> [] \<Longrightarrow> last (up_to_last_eq line) = CHR ''=''"
  unfolding up_to_last_eq_def using hd_dropWhile [of "\<lambda>c. c \<noteq> CHR ''=''" "rev line"]
  by (simp add: last_rev)

lemma search_fod_path_nonempty:
  "search_fod_path log = Some hash \<Longrightarrow> hash \<noteq> [] \<and> last hash = CHR ''=''"
  by (induction log) (auto simp: up_to_last_eq_last split: if_splits)

lemma hashes_empty_strip: "hashes_empty (sources (strip_hashes_from_lock lock))"
  by (auto simp: hashes_empty_def strip_hashes_from_lock_def list_all_iff)

lemma clean_up_succeeds: "\<exists>lock'. clean_up_dependency_graph lock = Inr lock'"
proof (cases "dependencies (generic lock)")
  case None
  then show ?thesis by (simp add: clean_up_dependency_graph_def)
next
  case (Some D)
  from remove_cyclic_dependencies_post [of "remove_empty_entries D"] Some
  show ?thesis by (auto simp: clean_up_dependency_graph_def)
qed

lemma clean_up_sources:
  "clean_up_dependency_graph lock = Inr lock' \<Longrightarrow> sources lock' = sources lock"
  by (auto simp: clean_up_dependency_graph_def split: option.splits sum.splits)

subsection \<open>The command\<close>


lemma before_translator_succeeds:
  assumes "before_translator opts w dir0 = Inr (sourceSpec, t, args, err, dir1)"
  shows "env_source w = Inr sourceSpec" and "env_translator w = Inr t"
    and "handle_extra_args (env_interactive w) (env_ask w) t (opt_arg opts) = Inr (args, err)"
    and "ensure_output opts (env_output_is_cwd w) dir0 = Inr dir1"
  using assms
  by (auto simp: before_translator_def handle_extra_args_def
      split: sum.splits option.splits if_splits prod.splits)

lemma handle_success:
  assumes "handle opts w dir0 = (Inr lock, dir')"
  shows "\<exists>sourceSpec t args err dir1 out.
            before_translator opts w dir0 = Inr (sourceSpec, t, args, err, dir1)
          \<and> rewrite_dream_lock t (opt_combined opts) args sourceSpec (env_strip_hashes w)
               (env_fod_log w) (env_checkLockJSON w)
               (env_run_translator w args (dream_lock_json dir1)) = (Inr lock, out)
          \<and> lock_file dir' = out \<and> env_template w lock \<noteq> None"
  using assms
  by (auto simp: handle_def create_default_nix_def lock_file_def
      split: sum.splits option.splits if_splits prod.splits)




lemma rewrite_dream_lock_success:
  assumes "rewrite_dream_lock t combined args sourceSpec strip fod_log checkLockJSON written
           = (Inr lock', out)"
  shows "\<exists>l lock0 lock1.
            written = Some (l, lock0)
          \<and> clean_up_dependency_graph
               (add_main_source sourceSpec (write_translator_info t combined args lock0)) = Inr lock1
          \<and> (combined \<longrightarrow>
               (\<exists>hash. search_fod_path (fod_log (Indented, stripped_lock strip lock1)) = Some hash
                  \<and> lock' = (stripped_lock strip lock1)
                            \<lparr>generic := (generic (stripped_lock strip lock1))
                               \<lparr>sourcesCombinedHash := Some hash\<rparr>\<rparr>))
          \<and> (\<not> combined \<longrightarrow> lock' = lock1)
          \<and> checkLockJSON lock' \<and> out = Some (Canonical, lock')"
proof (cases written)
  case None
  with assms show ?thesis by (simp add: rewrite_dream_lock_def)
next
  case (Some f)
  obtain l lock0 where f: "f = (l, lock0)" by (cases f)
  from clean_up_succeeds obtain lock1 where
    c: "clean_up_dependency_graph
          (add_main_source sourceSpec (write_translator_info t combined args lock0)) = Inr lock1"
    by blast
  show ?thesis
  proof (cases combined)
    case True
    with assms Some f c show ?thesis
      by (cases "search_fod_path (fod_log (Indented, stripped_lock strip lock1))")
        (auto simp: rewrite_dream_lock_def calculate_combined_hash_def split: if_splits)
  next
    case False
    with assms Some f c show ?thesis
      by (auto simp: rewrite_dream_lock_def split: if_splits)
  qed
qed

lemma clean_up_generic:
  "clean_up_dependency_graph lock = Inr lock' \<Longrightarrow>
   translatorParams (generic lock') = translatorParams (generic lock)
   \<and> translatedBy (generic lock') = translatedBy (generic lock)"
  by (auto simp: clean_up_dependency_graph_def split: option.splits sum.splits)

lemma clean_up_cyclic_key:
  "\<exists>lock'. clean_up_dependency_graph lock = Inr lock'
     \<and> ((cyclicDependencies lock' \<noteq> None)
        = (dependencies (generic lock) \<noteq> None \<or> cyclicDependencies lock \<noteq> None))"
proof (cases "dependencies (generic lock)")
  case None
  then show ?thesis by (simp add: clean_up_dependency_graph_def)
next
  case (Some depGraph)
  from remove_cyclic_dependencies_post [of "remove_empty_entries depGraph"]
  obtain G removed_edges where
    "remove_cyclic_dependencies (remove_empty_entries depGraph) = Inr (G, removed_edges)"
    by blast
  with Some show ?thesis by (simp add: clean_up_dependency_graph_def)
qed

lemma handle_combined_hash:
  assumes "handle opts w dir0 = (Inr lock', dir')" and "opt_combined opts"
  shows "\<exists>hash. sourcesCombinedHash (generic lock') = Some hash \<and> hash \<noteq> []
           \<and> lock_file dir' = Some (Canonical, lock')"
proof -
  from handle_success [OF assms(1)] obtain sourceSpec t args err dir1 out where
    b: "before_translator opts w dir0 = Inr (sourceSpec, t, args, err, dir1)"
    and rw: "rewrite_dream_lock t (opt_combined opts) args sourceSpec (env_strip_hashes w)
               (env_fod_log w) (env_checkLockJSON w)
               (env_run_translator w args (dream_lock_json dir1)) = (Inr lock', out)"
    and out: "lock_file dir' = out"
    by blast
  from rewrite_dream_lock_success [OF rw] assms(2) obtain lock1 hash where
    "search_fod_path (env_fod_log w (Indented, stripped_lock (env_strip_hashes w) lock1)) = Some hash"
    "lock' = (stripped_lock (env_strip_hashes w) lock1)
                \<lparr>generic := (generic (stripped_lock (env_strip_hashes w) lock1))
                   \<lparr>sourcesCombinedHash := Some hash\<rparr>\<rparr>"
    "out = Some (Canonical, lock')"
    by blast
  with out search_fod_path_nonempty [of _ hash] show ?thesis by auto
qed

text \<open>
  Claim C7: in the mode of the combined hash, right after the stripping every hash field
  of the sources is empty and \<^verbatim>\<open>sourcesCombinedHash\<close> is the empty string, and this
  is the lock written to the output location; when the marker is found in the log of the
  build, \<^verbatim>\<open>sourcesCombinedHash\<close> is the hash read from the log, which is not empty,
  also in the lock after line 377 and in the lock the whole command ends with.
\<close>

theorem C7_combined_hash:
  "hashes_empty (sources (stripped_lock strip_hashes_from_lock lock))
   \<and> sourcesCombinedHash (generic (stripped_lock strip_hashes_from_lock lock)) = Some []
   \<and> snd (calculate_combined_hash strip_hashes_from_lock fod_log lock)
       = Some (Indented, stripped_lock strip_hashes_from_lock lock)
   \<and> (\<forall>lock' out.
        calculate_combined_hash strip_hashes_from_lock fod_log lock = (Inr lock', out) \<longrightarrow>
        (\<exists>hash. search_fod_path (fod_log (Indented, stripped_lock strip_hashes_from_lock lock))
                   = Some hash
           \<and> sourcesCombinedHash (generic lock') = Some hash \<and> hash \<noteq> []))
   \<and> (\<forall>lock' out.
        rewrite_dream_lock t True args sourceSpec strip_hashes_from_lock fod_log checkLockJSON
          (Some (Translated, lock0)) = (Inr lock', out) \<longrightarrow>
        (\<exists>lock1 hash.
             clean_up_dependency_graph
               (add_main_source sourceSpec (write_translator_info t True args lock0)) = Inr lock1
           \<and> search_fod_path (fod_log (Indented, stripped_lock strip_hashes_from_lock lock1))
                = Some hash
           \<and> sourcesCombinedHash (generic lock') = Some hash \<and> hash \<noteq> []))
   \<and> (\<forall>lock' dir'.
        handle opts w dir0 = (Inr lock', dir') \<longrightarrow> opt_combined opts \<longrightarrow>
        (\<exists>hash. sourcesCombinedHash (generic lock') = Some hash \<and> hash \<noteq> []
           \<and> lock_file dir' = Some (Canonical, lock')))"
proof (intro conjI allI impI)
  show "hashes_empty (sources (stripped_lock strip_hashes_from_lock lock))"
    using hashes_empty_strip [of lock] by (simp add: stripped_lock_def)
  show "sourcesCombinedHash (generic (stripped_lock strip_hashes_from_lock lock)) = Some []"
    by (simp add: stripped_lock_def)
  show "snd (calculate_combined_hash strip_hashes_from_lock fod_log lock)
       = Some (Indented, stripped_lock strip_hashes_from_lock lock)"
    by (simp add: calculate_combined_hash_def split: option.splits)
next
  fix lock' out
  assume "calculate_combined_hash strip_hashes_from_lock fod_log lock = (Inr lock', out)"
  then show "\<exists>hash. search_fod_path (fod_log (Indented, stripped_lock strip_hashes_from_lock lock))
                   = Some hash
           \<and> sourcesCombinedHash (generic lock') = Some hash \<and> hash \<noteq> []"
    by (auto simp: calculate_combined_hash_def split: option.splits
        dest: search_fod_path_nonempty)
next
  fix lock' out
  assume h: "rewrite_dream_lock t True args sourceSpec strip_hashes_from_lock fod_log checkLockJSON
          (Some (Translated, lock0)) = (Inr lock', out)"
  from clean_up_succeeds obtain lock1 where
    c: "clean_up_dependency_graph
          (add_main_source sourceSpec (write_translator_info t True args lock0)) = Inr lock1"
    by blast
  from h c have "\<exists>hash. search_fod_path (fod_log (Indented, stripped_lock strip_hashes_from_lock lock1))
                = Some hash
           \<and> sourcesCombinedHash (generic lock') = Some hash \<and> hash \<noteq> []"
    by (auto simp: rewrite_dream_lock_def calculate_combined_hash_def
        split: option.splits if_splits dest: search_fod_path_nonempty)
  with c show "\<exists>lock1 hash.
             clean_up_dependency_graph
               (add_main_source sourceSpec (write_translator_info t True args lock0)) = Inr lock1
           \<and> search_fod_path (fod_log (Indented, stripped_lock strip_hashes_from_lock lock1))
                = Some hash
           \<and> sourcesCombinedHash (generic lock') = Some hash \<and> hash \<noteq> []"
    by blast
next
  fix lock' dir'
  assume "handle opts w dir0 = (Inr lock', dir')" and "opt_combined opts"
  then show "\<exists>hash. sourcesCombinedHash (generic lock') = Some hash \<and> hash \<noteq> []
           \<and> lock_file dir' = Some (Canonical, lock')"
    by (rule handle_combined_hash)
qed

text \<open>The theorem of claim C7 at a lock with one hash and a log with the marker.\<close>

theorem C7_combined_hash_witness:
  "rewrite_dream_lock example_translator True [] [] strip_hashes_from_lock
      (\<lambda>file. ''FOD_PATH=sha256-abc='') (\<lambda>lock. True) (Some (Translated, lock_with_hash))
     = (Inr (lock_with_hash_stripped
               \<lparr>generic := (generic lock_with_hash_stripped)
                  \<lparr>sourcesCombinedHash := Some ''sha256-abc=''\<rparr>\<rparr>),
        Some (Canonical,
              lock_with_hash_stripped
               \<lparr>generic := (generic lock_with_hash_stripped)
                  \<lparr>sourcesCombinedHash := Some ''sha256-abc=''\<rparr>\<rparr>))
   \<and> sources lock_with_hash
       = [(''B'', [(''1'', [(''type'', ''fetchurl''), (''hash'', ''sha256-xyz'')])])]
   \<and> hashes_empty (sources (stripped_lock strip_hashes_from_lock lock_with_hash))
   \<and> (\<exists>hash. sourcesCombinedHash (generic (lock_with_hash_stripped
               \<lparr>generic := (generic lock_with_hash_stripped)
                  \<lparr>sourcesCombinedHash := Some ''sha256-abc=''\<rparr>\<rparr>)) = Some hash
         \<and> hash \<noteq> [])
   \<and> handle example_options example_environment None
       = (Inr (lock_with_hash_stripped
                 \<lparr>generic := (generic lock_with_hash_stripped)
                    \<lparr>sourcesCombinedHash := Some ''sha256-abc=''\<rparr>\<rparr>),
          Some \<lparr>dream_lock_json =
                   Some (Canonical,
                         lock_with_hash_stripped
                           \<lparr>generic := (generic lock_with_hash_stripped)
                              \<lparr>sourcesCombinedHash := Some ''sha256-abc=''\<rparr>\<rparr>),
                 default_nix = None\<rparr>)"
proof -
  have h2: "handle example_options example_environment None
       = (Inr (lock_with_hash_stripped
                 \<lparr>generic := (generic lock_with_hash_stripped)
                    \<lparr>sourcesCombinedHash := Some ''sha256-abc=''\<rparr>\<rparr>),
          Some \<lparr>dream_lock_json =
                   Some (Canonical,
                         lock_with_hash_stripped
                           \<lparr>generic := (generic lock_with_hash_stripped)
                              \<lparr>sourcesCombinedHash := Some ''sha256-abc=''\<rparr>\<rparr>),
                 default_nix = None\<rparr>)"
    by code_simp
  have h: "rewrite_dream_lock example_translator True [] [] strip_hashes_from_lock
      (\<lambda>file. ''FOD_PATH=sha256-abc='') (\<lambda>lock. True) (Some (Translated, lock_with_hash))
     = (Inr (lock_with_hash_stripped
               \<lparr>generic := (generic lock_with_hash_stripped)
                  \<lparr>sourcesCombinedHash := Some ''sha256-abc=''\<rparr>\<rparr>),
        Some (Canonical,
              lock_with_hash_stripped
               \<lparr>generic := (generic lock_with_hash_stripped)
                  \<lparr>sourcesCombinedHash := Some ''sha256-abc=''\<rparr>\<rparr>))"
    by code_simp
  note c = C7_combined_hash [of lock_with_hash "\<lambda>file. ''FOD_PATH=sha256-abc=''"
      example_translator "[]" "[]" "\<lambda>lock. True" lock_with_hash
      example_options example_environment None]
  from c have 1: "hashes_empty (sources (stripped_lock strip_hashes_from_lock lock_with_hash))"
    by blast
  from c h have "\<exists>hash. sourcesCombinedHash (generic (lock_with_hash_stripped
               \<lparr>generic := (generic lock_with_hash_stripped)
                  \<lparr>sourcesCombinedHash := Some ''sha256-abc=''\<rparr>\<rparr>)) = Some hash
         \<and> hash \<noteq> []"
    by blast
  with h h2 1 show ?thesis by (simp add: lock_with_hash_def)
qed




subsection \<open>The key of the cyclic dependencies\<close>

text \<open>
  Claim C10 as stated (the output lock has the key \<^verbatim>\<open>cyclicDependencies\<close> exactly
  when the lock of the translator has the key \<^verbatim>\<open>dependencies\<close>) fails: a lock of
  the translator that has the key \<^verbatim>\<open>cyclicDependencies\<close> and no key
  \<^verbatim>\<open>dependencies\<close> keeps its key, in the stage and in the lock the command ends
  with.
\<close>

theorem C10_translator_key_is_kept:
  "dependencies (generic lock_with_key) = None
   \<and> clean_up_dependency_graph lock_with_key = Inr lock_with_key
   \<and> cyclicDependencies lock_with_key = Some [(''B'', [(''1'', [(''A'', ''1'')])])]
   \<and> (case fst (handle (example_options\<lparr>opt_combined := False\<rparr>) environment_with_key None) of
         Inl e \<Rightarrow> None
       | Inr lock \<Rightarrow> cyclicDependencies lock)
      = Some [(''B'', [(''1'', [(''A'', ''1'')])])]"
  by code_simp

text \<open>
  Claim C10, amended: without the key \<^verbatim>\<open>dependencies\<close> the stage is skipped and the
  lock is left as it is, so no key \<^verbatim>\<open>cyclicDependencies\<close> is added and a key of the
  translator's lock is kept; with the key, the stage ends without an error and
  \<^verbatim>\<open>cyclicDependencies\<close> is set, to the empty dictionary when no edge was removed.
  The lock after the stage, and the lock the command ends with, has the key
  \<^verbatim>\<open>cyclicDependencies\<close> exactly when the lock of the translator has the key
  \<^verbatim>\<open>dependencies\<close> or has the key \<^verbatim>\<open>cyclicDependencies\<close> itself. In the mode
  of the combined hash this is for a function that strips the hashes and leaves the key
  alone.
\<close>

theorem C10_cyclic_dependencies_key:
  "(dependencies (generic lock) = None \<longrightarrow> clean_up_dependency_graph lock = Inr lock)
   \<and> (dependencies (generic lock) \<noteq> None \<longrightarrow>
        (\<exists>lock' G removed_edges.
           remove_cyclic_dependencies (remove_empty_entries (the (dependencies (generic lock))))
             = Inr (G, removed_edges)
         \<and> clean_up_dependency_graph lock = Inr lock'
         \<and> cyclicDependencies lock' = Some (cyclic_dependencies_of removed_edges)
         \<and> (removed_edges = [] \<longrightarrow> cyclicDependencies lock' = Some [])))
   \<and> (\<exists>lock'. clean_up_dependency_graph lock = Inr lock'
         \<and> ((cyclicDependencies lock' \<noteq> None)
            = (dependencies (generic lock) \<noteq> None \<or> cyclicDependencies lock \<noteq> None)))
   \<and> (\<forall>lock' dir'.
        handle opts w dir0 = (Inr lock', dir') \<longrightarrow>
        (opt_combined opts \<longrightarrow>
           (\<forall>l. cyclicDependencies (env_strip_hashes w l) = cyclicDependencies l)) \<longrightarrow>
        (\<exists>sourceSpec t args err dir1 l lock0.
            before_translator opts w dir0 = Inr (sourceSpec, t, args, err, dir1)
          \<and> env_run_translator w args (dream_lock_json dir1) = Some (l, lock0)
          \<and> lock_file dir' = Some (Canonical, lock')
          \<and> ((cyclicDependencies lock' \<noteq> None)
             = (dependencies (generic lock0) \<noteq> None \<or> cyclicDependencies lock0 \<noteq> None))))"
proof (intro conjI allI impI)
  show "clean_up_dependency_graph lock = Inr lock" if "dependencies (generic lock) = None"
    using that by (simp add: clean_up_dependency_graph_def)
next
  assume "dependencies (generic lock) \<noteq> None"
  then obtain depGraph where Some: "dependencies (generic lock) = Some depGraph" by auto
  from remove_cyclic_dependencies_post [of "remove_empty_entries depGraph"]
  obtain G removed_edges where
    r: "remove_cyclic_dependencies (remove_empty_entries depGraph) = Inr (G, removed_edges)"
    by blast
  let ?lock' = "lock\<lparr>generic := (generic lock)
                          \<lparr>dependencies := Some (remove_empty_entries depGraph)\<rparr>,
                     cyclicDependencies := Some (cyclic_dependencies_of removed_edges)\<rparr>"
  have c: "clean_up_dependency_graph lock = Inr ?lock'"
    using Some r by (simp add: clean_up_dependency_graph_def)
  show "\<exists>lock' G removed_edges.
           remove_cyclic_dependencies (remove_empty_entries (the (dependencies (generic lock))))
             = Inr (G, removed_edges)
         \<and> clean_up_dependency_graph lock = Inr lock'
         \<and> cyclicDependencies lock' = Some (cyclic_dependencies_of removed_edges)
         \<and> (removed_edges = [] \<longrightarrow> cyclicDependencies lock' = Some [])"
    using Some r c by (intro exI [of _ ?lock'] exI [of _ G] exI [of _ removed_edges])
      (simp add: cyclic_dependencies_of_Nil)
next
  show "\<exists>lock'. clean_up_dependency_graph lock = Inr lock'
         \<and> ((cyclicDependencies lock' \<noteq> None)
            = (dependencies (generic lock) \<noteq> None \<or> cyclicDependencies lock \<noteq> None))"
    by (rule clean_up_cyclic_key)
next
  fix lock' dir'
  assume h: "handle opts w dir0 = (Inr lock', dir')"
    and st: "opt_combined opts \<longrightarrow>
           (\<forall>l. cyclicDependencies (env_strip_hashes w l) = cyclicDependencies l)"
  from handle_success [OF h] obtain sourceSpec t args err dir1 out where
    b: "before_translator opts w dir0 = Inr (sourceSpec, t, args, err, dir1)"
    and rw: "rewrite_dream_lock t (opt_combined opts) args sourceSpec (env_strip_hashes w)
               (env_fod_log w) (env_checkLockJSON w)
               (env_run_translator w args (dream_lock_json dir1)) = (Inr lock', out)"
    and out: "lock_file dir' = out"
    by blast
  from rewrite_dream_lock_success [OF rw] obtain l lock0 lock1 where
    f: "env_run_translator w args (dream_lock_json dir1) = Some (l, lock0)"
    and c: "clean_up_dependency_graph
          (add_main_source sourceSpec (write_translator_info t (opt_combined opts) args lock0))
        = Inr lock1"
    and l2: "opt_combined opts \<longrightarrow>
             (\<exists>hash. lock' = (stripped_lock (env_strip_hashes w) lock1)
                                 \<lparr>generic := (generic (stripped_lock (env_strip_hashes w) lock1))
                                    \<lparr>sourcesCombinedHash := Some hash\<rparr>\<rparr>)"
      "\<not> opt_combined opts \<longrightarrow> lock' = lock1"
    and o: "out = Some (Canonical, lock')"
    by blast
  let ?lock = "add_main_source sourceSpec (write_translator_info t (opt_combined opts) args lock0)"
  have k: "dependencies (generic ?lock) = dependencies (generic lock0)"
    "cyclicDependencies ?lock = cyclicDependencies lock0"
    by (simp_all add: add_main_source_def write_translator_info_def Let_def)
  from clean_up_cyclic_key [of ?lock] c k
  have 1: "(cyclicDependencies lock1 \<noteq> None)
           = (dependencies (generic lock0) \<noteq> None \<or> cyclicDependencies lock0 \<noteq> None)"
    by simp
  from l2 st have "cyclicDependencies lock' = cyclicDependencies lock1"
    by (cases "opt_combined opts") (auto simp: stripped_lock_def)
  with 1 have 2: "(cyclicDependencies lock' \<noteq> None)
           = (dependencies (generic lock0) \<noteq> None \<or> cyclicDependencies lock0 \<noteq> None)"
    by simp
  from out o have 3: "lock_file dir' = Some (Canonical, lock')" by simp
  from b f 2 3
  show "\<exists>sourceSpec t args err dir1 l lock0.
            before_translator opts w dir0 = Inr (sourceSpec, t, args, err, dir1)
          \<and> env_run_translator w args (dream_lock_json dir1) = Some (l, lock0)
          \<and> lock_file dir' = Some (Canonical, lock')
          \<and> ((cyclicDependencies lock' \<noteq> None)
             = (dependencies (generic lock0) \<noteq> None \<or> cyclicDependencies lock0 \<noteq> None))"
    by blast
qed

text \<open>
  The theorem of claim C10 at a lock without dependencies, at one with dependencies and
  no cycle, at one with a cycle, and at the command for the lock of a translator that
  has the key already.
\<close>

theorem C10_cyclic_dependencies_key_witness:
  "clean_up_dependency_graph (lock_of None) = Inr (lock_of None)
   \<and> cyclicDependencies (lock_of None) = None
   \<and> (\<exists>lock'. clean_up_dependency_graph (lock_of (Some deps_chain)) = Inr lock'
        \<and> cyclicDependencies lock' = Some [])
   \<and> (\<exists>lock'. clean_up_dependency_graph (lock_of (Some deps_two_cycle)) = Inr lock'
        \<and> cyclicDependencies lock' \<noteq> None)
   \<and> (\<exists>lock' dir'.
        handle (example_options\<lparr>opt_combined := False\<rparr>) environment_with_key None
          = (Inr lock', dir')
      \<and> lock_file dir' = Some (Canonical, lock') \<and> cyclicDependencies lock' \<noteq> None)"
proof -
  have n: "dependencies (generic (lock_of None)) = None" "cyclicDependencies (lock_of None) = None"
    by (simp_all add: lock_of_def)
  have s: "dependencies (generic (lock_of (Some deps_chain))) \<noteq> None"
    "the (dependencies (generic (lock_of (Some deps_chain)))) = deps_chain"
    "dependencies (generic (lock_of (Some deps_two_cycle))) \<noteq> None"
    by (simp_all add: lock_of_def)
  have r: "remove_cyclic_dependencies (remove_empty_entries deps_chain)
             = Inr ([((''A'', ''1''), [(''B'', ''1'')]), ((''B'', ''1''), [])], [])"
    by code_simp
  from C10_cyclic_dependencies_key [of "lock_of None"] n
  have 1: "clean_up_dependency_graph (lock_of None) = Inr (lock_of None)" by blast
  from C10_cyclic_dependencies_key [of "lock_of (Some deps_chain)"] s(1)
  obtain lock' G removed_edges where
    "remove_cyclic_dependencies (remove_empty_entries (the (dependencies (generic (lock_of (Some deps_chain))))))
             = Inr (G, removed_edges)"
    "clean_up_dependency_graph (lock_of (Some deps_chain)) = Inr lock'"
    "removed_edges = [] \<longrightarrow> cyclicDependencies lock' = Some []"
    by blast
  with r s(2) have 2: "\<exists>lock'. clean_up_dependency_graph (lock_of (Some deps_chain)) = Inr lock'
        \<and> cyclicDependencies lock' = Some []" by simp
  from C10_cyclic_dependencies_key [of "lock_of (Some deps_two_cycle)"] s(3)
  have 3: "\<exists>lock'. clean_up_dependency_graph (lock_of (Some deps_two_cycle)) = Inr lock'
        \<and> cyclicDependencies lock' \<noteq> None" by blast
  let ?o = "example_options\<lparr>opt_combined := False\<rparr>"
  have "case fst (handle ?o environment_with_key None) of Inl e \<Rightarrow> False | Inr lock \<Rightarrow> True"
    by code_simp
  then obtain lock' dir' where h: "handle ?o environment_with_key None = (Inr lock', dir')"
    by (cases "handle ?o environment_with_key None") (auto split: sum.splits)
  have e: "\<not> opt_combined ?o"
    "\<And>args f. env_run_translator environment_with_key args f = Some (Translated, lock_with_key)"
    "cyclicDependencies lock_with_key \<noteq> None"
    by (simp_all add: environment_with_key_def example_environment_def lock_with_key_def)
  from C10_cyclic_dependencies_key [of "lock_of None" ?o environment_with_key None] h e(1)
  obtain args and dir1 :: directory and l lock0 where
    "env_run_translator environment_with_key args (dream_lock_json dir1) = Some (l, lock0)"
    "lock_file dir' = Some (Canonical, lock')"
    "(cyclicDependencies lock' \<noteq> None)
       = (dependencies (generic lock0) \<noteq> None \<or> cyclicDependencies lock0 \<noteq> None)"
    by blast
  with e(2,3) have "lock_file dir' = Some (Canonical, lock')" "cyclicDependencies lock' \<noteq> None"
    by auto
  with h have 4: "\<exists>lock' dir'.
        handle ?o environment_with_key None = (Inr lock', dir')
      \<and> lock_file dir' = Some (Canonical, lock') \<and> cyclicDependencies lock' \<noteq> None"
    by blast
  from 1 2 3 4 n(2) show ?thesis by simp
qed

subsection \<open>The text of the lock\<close>

text \<open>
  The scanner run over a part of a text, the tokens of a document, and the lemmas of the
  round trip: the replacements keep the tokens of a text, the text of a document scans
  to the tokens of the document, and these parse to the document with its keys sorted.
\<close>

lemma map_option_append:
  "map_option ((@) xs) (map_option ((@) ys) z) = map_option ((@) (xs @ ys)) z"
  by (cases z) simp_all

lemma lex_append:
  "lex m (a @ b) = (case run m a of None \<Rightarrow> None | Some (m', out) \<Rightarrow> map_option ((@) out) (lex m' b))"
proof (induction a arbitrary: m)
  case Nil
  show ?case by (cases "lex m b") simp_all
next
  case (Cons c a)
  show ?case
  proof (cases "step m c")
    case None
    then show ?thesis by simp
  next
    case (Some p)
    obtain m' out where p: "p = (m', out)" by (cases p)
    show ?thesis
      using Some p Cons.IH [of m']
      by (cases "run m' a") (auto simp: map_option_append)
  qed
qed

lemma replace_lex:
  assumes C: "\<And>m. run m old \<noteq> None \<Longrightarrow> run m new = run m old"
  shows "lex m s = Some ts \<Longrightarrow> lex m (replace old new s) = Some ts"
  using C
proof (induction old new s arbitrary: m ts rule: replace.induct)
  case (1 old new)
  then show ?case by simp
next
  case (2 old new c cs)
  show ?case
  proof (cases "old \<noteq> [] \<and> take (length old) (c # cs) = old")
    case True
    then have s: "c # cs = old @ drop (length old) (c # cs)"
      by (metis append_take_drop_id)
    from "2.prems"(1) have l: "lex m (old @ drop (length old) (c # cs)) = Some ts"
      using s by simp
    then obtain m' out ts' where r: "run m old = Some (m', out)"
      and l': "lex m' (drop (length old) (c # cs)) = Some ts'" and ts: "ts = out @ ts'"
      by (auto simp: lex_append split: option.splits)
    from r have "run m old \<noteq> None" by simp
    from "2.prems"(2) [OF this] r have rn: "run m new = Some (m', out)" by simp
    from "2.IH"(1) [OF True l' "2.prems"(2)] 
    have "lex m' (replace old new (drop (length old) (c # cs))) = Some ts'" by simp
    with rn ts have "lex m (new @ replace old new (drop (length old) (c # cs))) = Some ts"
      by (simp add: lex_append)
    with True show ?thesis by simp
  next
    case False
    from "2.prems"(1) obtain m' out ts' where st: "step m c = Some (m', out)"
      and l': "lex m' cs = Some ts'" and ts: "ts = out @ ts'"
      by (auto split: option.splits)
    from "2.IH"(2) [OF False l' "2.prems"(2)] have "lex m' (replace old new cs) = Some ts'" by simp
    with st ts False show ?thesis by auto
  qed
qed

lemma run_bracket:
  "run m (''['' @ NEWLINE # replicate 10 CHR '' '') \<noteq> None \<Longrightarrow>
   run m ''[ '' = run m (''['' @ NEWLINE # replicate 10 CHR '' '')"
  by (cases m) (simp_all add: whitespace_def punctuation_def unescape_def hex_value_def
      numeral_eq_Suc split: if_splits)

lemma run_comma:
  "run m ('','' @ NEWLINE # replicate 10 CHR '' '') \<noteq> None \<Longrightarrow>
   run m '', '' = run m ('','' @ NEWLINE # replicate 10 CHR '' '')"
  by (cases m) (simp_all add: whitespace_def punctuation_def unescape_def hex_value_def
      numeral_eq_Suc split: if_splits)

lemma run_quote:
  "run m (QUOTE # NEWLINE # replicate 8 CHR '' '' @ '']'') \<noteq> None \<Longrightarrow>
   run m (QUOTE # '' ]'') = run m (QUOTE # NEWLINE # replicate 8 CHR '' '' @ '']'')"
  by (cases m) (simp_all add: whitespace_def punctuation_def unescape_def hex_value_def
      numeral_eq_Suc split: if_splits)

lemma compact_lex: "lex m s = Some ts \<Longrightarrow> lex m (compact s) = Some ts"
  unfolding compact_def
  by (intro replace_lex run_bracket run_comma run_quote)

lemma map_option_append_Nil [simp]: "map_option ((@) []) z = z"
  by (cases z) simp_all

lemma lex_Word_delim:
  "delim rest \<Longrightarrow> lex (Word w) rest = map_option ((#) (TWord w)) (lex Out rest)"
proof (cases rest)
  case Nil
  then show ?thesis by simp
next
  case (Cons c cs)
  assume "delim rest"
  with Cons have "whitespace c \<or> punctuation c" by (simp add: delim_def)
  then show ?thesis using Cons
    by (cases "lex Out cs") (auto simp: whitespace_def punctuation_def)
qed

lemma lex_null: "delim rest \<Longrightarrow> lex Out (CHR ''n'' # CHR ''u'' # CHR ''l'' # CHR ''l'' # rest) = map_option ((#) (TWord ''null'')) (lex Out rest)"
  using lex_Word_delim [of rest "''null''"]
  by (simp add: whitespace_def punctuation_def)

lemma lex_true: "delim rest \<Longrightarrow> lex Out (CHR ''t'' # CHR ''r'' # CHR ''u'' # CHR ''e'' # rest) = map_option ((#) (TWord ''true'')) (lex Out rest)"
  using lex_Word_delim [of rest "''true''"]
  by (simp add: whitespace_def punctuation_def)

lemma lex_false: "delim rest \<Longrightarrow> lex Out (CHR ''f'' # CHR ''a'' # CHR ''l'' # CHR ''s'' # CHR ''e'' # rest) = map_option ((#) (TWord ''false'')) (lex Out rest)"
  using lex_Word_delim [of rest "''false''"]
  by (simp add: whitespace_def punctuation_def)

lemma lex_whitespace: "whitespace c \<Longrightarrow> lex Out (c # rest) = lex Out rest"
  by (cases "lex Out rest") simp_all

lemma lex_spaces: "lex Out (replicate n CHR '' '' @ rest) = lex Out rest"
  by (induction n) (simp_all add: lex_whitespace whitespace_def)

lemma lex_newline_indent: "lex Out (newline_indent level @ rest) = lex Out rest"
  by (simp add: newline_indent_def lex_whitespace whitespace_def lex_spaces)

lemma lex_punct:
  "punctuation c \<Longrightarrow> lex Out (c # rest) = map_option ((#) (TPunct c)) (lex Out rest)"
  by (cases "lex Out rest") (auto simp: punctuation_def whitespace_def)

lemma hex_value_hex_digit: "k < 16 \<Longrightarrow> hex_value (hex_digit k) = Some k"
proof -
  assume "k < 16"
  then have "k = 0 \<or> k = 1 \<or> k = 2 \<or> k = 3 \<or> k = 4 \<or> k = 5 \<or> k = 6 \<or> k = 7 \<or> k = 8
      \<or> k = 9 \<or> k = 10 \<or> k = 11 \<or> k = 12 \<or> k = 13 \<or> k = 14 \<or> k = 15"
    by arith
  then show ?thesis
    by (elim disjE) (simp_all add: hex_value_def hex_digit_def)
qed

lemma lex_escape_u:
  assumes "of_char c < (256 :: nat)"
  shows "lex (Str s) (BACKSLASH # CHR ''u'' # CHR ''0'' # CHR ''0''
            # hex_digit (of_char c div 16) # hex_digit (of_char c mod 16) # rest)
         = lex (Str (s @ [c])) rest"
proof -
  let ?h = "hex_digit (of_char c div 16)" and ?l = "hex_digit (of_char c mod 16)"
  have h: "hex_value ?h = Some (of_char c div 16)"
    by (rule hex_value_hex_digit) (use assms in \<open>simp add: less_mult_imp_div_less\<close>)
  have l: "hex_value ?l = Some (of_char c mod 16)"
    by (rule hex_value_hex_digit) simp
  have z: "hex_value CHR ''0'' = Some 0" by (simp add: hex_value_def)
  have cp: "code_point 0 [CHR ''0'', CHR ''0'', ?h, ?l] = Some (of_char c)"
    by (simp add: h l z)
  have "BACKSLASH \<noteq> QUOTE" by simp
  show ?thesis
    by (simp add: h l z cp assms)
qed

lemma lex_encode_char: "lex (Str s) (encode_char c @ rest) = lex (Str (s @ [c])) rest"
proof (cases "c \<in> {QUOTE, BACKSLASH, NEWLINE, CHR 0x0D, CHR 0x09, CHR 0x08, CHR 0x0C}")
  case True
  then show ?thesis by (auto simp: encode_char_def unescape_def)
next
  case False
  show ?thesis
  proof (cases "of_char c < (32 :: nat) \<or> (126 :: nat) < of_char c")
    case True
    with False have "encode_char c = [BACKSLASH, CHR ''u'', CHR ''0'', CHR ''0'',
              hex_digit (of_char c div 16), hex_digit (of_char c mod 16)]"
      by (simp add: encode_char_def)
    then show ?thesis using lex_escape_u [of c s rest] by simp
  next
    case False
    with \<open>c \<notin> _\<close> show ?thesis by (simp add: encode_char_def)
  qed
qed

lemma lex_encode_chars:
  "lex (Str s) (concat (map encode_char t) @ rest) = lex (Str (s @ t)) rest"
  by (induction t arbitrary: s) (simp_all add: lex_encode_char)

lemma lex_encode_string:
  "lex Out (encode_string s @ rest) = map_option ((#) (TString s)) (lex Out rest)"
proof -
  have "lex Out (encode_string s @ rest) = lex (Str []) (concat (map encode_char s) @ QUOTE # rest)"
    by (simp add: encode_string_def whitespace_def punctuation_def)
  also have "\<dots> = lex (Str s) (QUOTE # rest)" by (simp add: lex_encode_chars)
  also have "\<dots> = map_option ((#) (TString s)) (lex Out rest)"
    by (cases "lex Out rest") simp_all
  finally show ?thesis .
qed

declare lex.simps(2) [simp del]

lemma delim_newline_indent [simp]: "delim (newline_indent level @ rest)"
  by (simp add: delim_def newline_indent_def whitespace_def)

lemma delim_punct [simp]: "punctuation c \<Longrightarrow> delim (c # rest)"
  by (simp add: delim_def)

lemma map_option_Cons_append:
  "map_option ((#) x) (map_option ((@) xs) z) = map_option ((@) (x # xs)) z"
  by (cases z) simp_all

lemma map_option_append_Cons:
  "map_option ((@) xs) (map_option ((#) x) z) = map_option ((@) (xs @ [x])) z"
  by (cases z) simp_all

lemma lex_join:
  assumes "\<And>x rest. x \<in> set xs \<Longrightarrow> delim rest \<Longrightarrow>
             lex Out (enc x @ rest) = map_option ((@) (tk x)) (lex Out rest)"
    and "xs \<noteq> []" "delim rest"
  shows "lex Out (join ('','' @ newline_indent level) (map enc xs) @ rest)
         = map_option ((@) (join [TPunct CHR '',''] (map tk xs))) (lex Out rest)"
  using assms
proof (induction xs)
  case Nil
  then show ?case by simp
next
  case (Cons x xs)
  show ?case
  proof (cases xs)
    case Nil
    with Cons.prems show ?thesis by simp
  next
    case (Cons y ys)
    have d: "delim ('','' @ newline_indent level @ join ('','' @ newline_indent level) (map enc xs) @ rest)"
      by (simp add: punctuation_def)
    have IH: "lex Out (join ('','' @ newline_indent level) (map enc xs) @ rest)
         = map_option ((@) (join [TPunct CHR '',''] (map tk xs))) (lex Out rest)"
      by (rule Cons.IH) (use Cons.prems Cons in auto)
    have "lex Out (join ('','' @ newline_indent level) (map enc (x # xs)) @ rest)
          = lex Out (enc x @ '','' @ newline_indent level
                      @ join ('','' @ newline_indent level) (map enc xs) @ rest)"
      using Cons by simp
    also have "\<dots> = map_option ((@) (tk x))
        (lex Out ('','' @ newline_indent level @ join ('','' @ newline_indent level) (map enc xs) @ rest))"
      by (rule Cons.prems(1) [OF _ d]) simp
    also have "lex Out ('','' @ newline_indent level @ join ('','' @ newline_indent level) (map enc xs) @ rest)
        = map_option ((#) (TPunct CHR '','')) (lex Out (join ('','' @ newline_indent level) (map enc xs) @ rest))"
      by (simp add: lex_punct punctuation_def lex_newline_indent)
    finally have "lex Out (join ('','' @ newline_indent level) (map enc (x # xs)) @ rest)
        = map_option ((@) (tk x)) (map_option ((#) (TPunct CHR '',''))
            (map_option ((@) (join [TPunct CHR '',''] (map tk xs))) (lex Out rest)))"
      unfolding IH .
    then show ?thesis using Cons by (cases "lex Out rest") simp_all
  qed
qed

lemma lex_encode:
  "delim rest \<Longrightarrow> lex Out (encode level v @ rest) = map_option ((@) (toks v)) (lex Out rest)"
proof (induction v arbitrary: level rest)
  case JNull
  then show ?case by (cases "lex Out rest") (simp_all add: lex_null)
next
  case (JBool b)
  then show ?case by (cases "lex Out rest") (simp_all add: lex_true lex_false)
next
  case (JString s)
  show ?case by (cases "lex Out rest") (simp_all add: lex_encode_string)
next
  case (JArray xs)
  show ?case
  proof (cases "xs = []")
    case True
    then show ?thesis
      by (cases "lex Out rest") (simp_all add: lex_punct punctuation_def)
  next
    case False
    have "lex Out (join ('','' @ newline_indent (Suc level)) (map (encode (Suc level)) xs)
                    @ newline_indent level @ '']'' @ rest)
         = map_option ((@) (join [TPunct CHR '',''] (map toks xs)))
             (lex Out (newline_indent level @ '']'' @ rest))"
      by (rule lex_join [OF JArray.IH False]) simp_all
    then show ?thesis using False
      by (cases "lex Out rest")
        (simp_all add: lex_punct punctuation_def lex_newline_indent)
  qed
next
  case (JObject items)
  show ?case
  proof (cases "items = []")
    case True
    then show ?thesis
      by (cases "lex Out rest") (simp_all add: lex_punct punctuation_def)
  next
    case False
    let ?enc = "\<lambda>(k, v). encode_string k @ '': '' @ encode (Suc level) v"
    let ?tk = "\<lambda>(k, v). TString k # TPunct CHR '':'' # toks v"
    have m: "lex Out (?enc x @ r) = map_option ((@) (?tk x)) (lex Out r)"
      if "x \<in> set (sort_key fst items)" "delim r" for x r
    proof -
      obtain k v where x: "x = (k, v)" by (cases x)
      with that(1) have "(k, v) \<in> set items" by simp
      then have "v \<in> Basic_BNFs.snds (k, v)" "(k, v) \<in> set items" by simp_all
      from JObject.IH [OF this(2) this(1) that(2)]
      have "lex Out (encode (Suc level) v @ r) = map_option ((@) (toks v)) (lex Out r)" .
      then show ?thesis unfolding x
        by (cases "lex Out r")
          (simp_all add: lex_encode_string lex_punct punctuation_def lex_whitespace whitespace_def)
    qed
    have ne: "sort_key fst items \<noteq> []" using False by (metis length_0_conv length_sort)
    have "lex Out (join ('','' @ newline_indent (Suc level)) (map ?enc (sort_key fst items))
                    @ newline_indent level @ ''}'' @ rest)
         = map_option ((@) (join [TPunct CHR '',''] (map ?tk (sort_key fst items))))
             (lex Out (newline_indent level @ ''}'' @ rest))"
      by (rule lex_join [OF m ne]) simp_all
    then show ?thesis using False
      by (cases "lex Out rest")
        (simp_all add: lex_punct punctuation_def lex_newline_indent)
  qed
qed

lemma update_new: "k \<notin> fst ` set acc \<Longrightarrow> AList.update k v acc = acc @ [(k, v)]"
  by (induction acc) auto

lemma fold_update_distinct:
  "distinct (map fst (acc @ ps)) \<Longrightarrow> fold (\<lambda>(k, v). AList.update k v) ps acc = acc @ ps"
proof (induction ps arbitrary: acc)
  case Nil
  show ?case by simp
next
  case (Cons p ps)
  obtain k v where p: "p = (k, v)" by (cases p)
  from Cons.prems p have "k \<notin> fst ` set acc" by auto
  then have u: "AList.update k v acc = acc @ [(k, v)]" by (rule update_new)
  from Cons.prems p have "distinct (map fst ((acc @ [(k, v)]) @ ps))" by simp
  from Cons.IH [OF this] u p show ?case by simp
qed

lemma dict_of_distinct: "distinct (map fst ps) \<Longrightarrow> dict_of ps = JObject ps"
  using fold_update_distinct [of "[]" ps] by (simp add: dict_of_def)

lemma insort_key_map_snd:
  "insort_key fst (k, g v) (map (\<lambda>(k, v). (k, g v)) xs)
     = map (\<lambda>(k, v). (k, g v)) (insort_key fst (k, v) xs)"
  by (induction xs) auto

lemma sort_key_map_snd:
  "sort_key fst (map (\<lambda>(k, v). (k, g v)) xs) = map (\<lambda>(k, v). (k, g v)) (sort_key fst xs)"
proof (induction xs)
  case Nil
  show ?case by simp
next
  case (Cons x xs)
  obtain k v where x: "x = (k, v)" by (cases x)
  show ?case unfolding x using Cons.IH by (simp add: insort_key_map_snd)
qed

lemma toks_hd: "toks v \<noteq> [] \<and> hd (toks v) \<noteq> TPunct CHR '']'' \<and> hd (toks v) \<noteq> TPunct CHR ''}''"
  by (cases v) simp_all

lemma join_hd:
  "xs \<noteq> [] \<Longrightarrow> hd xs \<noteq> [] \<Longrightarrow> join sep xs \<noteq> [] \<and> hd (join sep xs) = hd (hd xs)"
  by (induction sep xs rule: join.induct) auto

lemma length_join_Cons:
  "length x \<le> length (join sep (x # xs))"
  by (cases xs) simp_all

lemma parse_array_toks:
  assumes "\<And>x f rest. x \<in> set xs \<Longrightarrow> 2 * length (toks x) \<le> f \<Longrightarrow>
             parse_value f (toks x @ rest) = Some (sort_keys x, rest)"
    and "xs \<noteq> []"
    and "2 * length (join [TPunct CHR '',''] (map toks xs)) + 1 \<le> f"
  shows "parse_array f (join [TPunct CHR '',''] (map toks xs) @ TPunct CHR '']'' # rest)
         = Some (map sort_keys xs, rest)"
  using assms
proof (induction xs arbitrary: f)
  case Nil
  then show ?case by simp
next
  case (Cons x xs)
  from Cons.prems(3) obtain n where f: "f = Suc n"
    and n: "2 * length (join [TPunct CHR '',''] (map toks (x # xs))) \<le> n"
    by (cases f) auto
  have "2 * length (toks x) \<le> n"
    using n length_join_Cons [of "toks x" "[TPunct CHR '','']" "map toks xs"] by simp
  then have pv: "\<And>r. parse_value n (toks x @ r) = Some (sort_keys x, r)"
    using Cons.prems(1) by simp
  show ?case
  proof (cases xs)
    case Nil
    then show ?thesis using f pv by simp
  next
    case (Cons y ys)
    have "2 * length (join [TPunct CHR '',''] (map toks xs)) + 1 \<le> n"
      using n Cons by simp
    moreover have "xs \<noteq> []" using Cons by simp
    moreover have "\<And>x f rest. x \<in> set xs \<Longrightarrow> 2 * length (toks x) \<le> f \<Longrightarrow>
             parse_value f (toks x @ rest) = Some (sort_keys x, rest)"
      using Cons.prems(1) by (meson list.set_intros(2))
    ultimately
    have "parse_array n (join [TPunct CHR '',''] (map toks xs) @ TPunct CHR '']'' # rest)
         = Some (map sort_keys xs, rest)"
      using Cons.IH [of n] by blast
    then show ?thesis using f pv Cons by simp
  qed
qed

lemma parse_object_toks:
  assumes "\<And>k v f rest. (k, v) \<in> set ms \<Longrightarrow> 2 * length (toks v) \<le> f \<Longrightarrow>
             parse_value f (toks v @ rest) = Some (sort_keys v, rest)"
    and "ms \<noteq> []"
    and "2 * length (join [TPunct CHR '','']
            (map (\<lambda>(k, v). TString k # TPunct CHR '':'' # toks v) ms)) + 1 \<le> f"
  shows "parse_object f
           (join [TPunct CHR '','']
              (map (\<lambda>(k, v). TString k # TPunct CHR '':'' # toks v) ms) @ TPunct CHR ''}'' # rest)
         = Some (map (\<lambda>(k, v). (k, sort_keys v)) ms, rest)"
  using assms
proof (induction ms arbitrary: f)
  case Nil
  then show ?case by simp
next
  case (Cons m ms)
  let ?tk = "\<lambda>(k, v). TString k # TPunct CHR '':'' # toks v"
  obtain k v where m: "m = (k, v)" by (cases m)
  from Cons.prems(3) obtain n where f: "f = Suc n"
    and n: "2 * length (join [TPunct CHR '',''] (map ?tk (m # ms))) \<le> n"
    by (cases f) auto
  have "2 * length (?tk m) \<le> n"
    using n length_join_Cons [of "?tk m" "[TPunct CHR '','']" "map ?tk ms"] by simp
  then have "2 * length (toks v) \<le> n" using m by simp
  then have pv: "\<And>r. parse_value n (toks v @ r) = Some (sort_keys v, r)"
    using Cons.prems(1) [of k v] m by simp
  show ?case
  proof (cases ms)
    case Nil
    then show ?thesis using f pv m by simp
  next
    case (Cons y ys)
    have "2 * length (join [TPunct CHR '',''] (map ?tk ms)) + 1 \<le> n"
      using n Cons by simp
    moreover have "ms \<noteq> []" using Cons by simp
    moreover have "\<And>k v f rest. (k, v) \<in> set ms \<Longrightarrow> 2 * length (toks v) \<le> f \<Longrightarrow>
             parse_value f (toks v @ rest) = Some (sort_keys v, rest)"
      using Cons.prems(1) by (meson list.set_intros(2))
    ultimately
    have "parse_object n (join [TPunct CHR '',''] (map ?tk ms) @ TPunct CHR ''}'' # rest)
         = Some (map (\<lambda>(k, v). (k, sort_keys v)) ms, rest)"
      using Cons.IH [of n] by blast
    then show ?thesis using f pv m Cons by simp
  qed
qed

lemma parse_value_toks:
  "distinct_keys v \<Longrightarrow> 2 * length (toks v) \<le> f \<Longrightarrow>
   parse_value f (toks v @ rest) = Some (sort_keys v, rest)"
proof (induction v arbitrary: f rest)
  case JNull
  then show ?case by (cases f) simp_all
next
  case (JBool b)
  then show ?case by (cases f) simp_all
next
  case (JString s)
  then show ?case by (cases f) simp_all
next
  case (JArray xs)
  from JArray.prems(2) obtain n where f: "f = Suc n" by (cases f) auto
  show ?case
  proof (cases "xs = []")
    case True
    then show ?thesis using f by simp
  next
    case False
    let ?ts = "join [TPunct CHR '',''] (map toks xs)"
    have pv: "parse_value g (toks x @ r) = Some (sort_keys x, r)"
      if "x \<in> set xs" "2 * length (toks x) \<le> g" for x g r
      using JArray.IH [OF that(1) _ that(2)] JArray.prems(1) that(1)
      by (simp add: list_all_iff)
    have "2 * length ?ts + 1 \<le> n" using JArray.prems(2) f by simp
    from parse_array_toks [OF pv False this]
    have pa: "parse_array n (?ts @ TPunct CHR '']'' # rest) = Some (map sort_keys xs, rest)"
      by simp
    have "map toks xs \<noteq> []" "hd (map toks xs) \<noteq> []"
      using False toks_hd [of "hd xs"] by (simp_all add: hd_map)
    from join_hd [OF this] toks_hd [of "hd xs"] False
    have h: "?ts \<noteq> []" "hd ?ts \<noteq> TPunct CHR '']''" by (simp_all add: hd_map)
    then have "?ts @ TPunct CHR '']'' # rest \<noteq> []"
      "hd (?ts @ TPunct CHR '']'' # rest) \<noteq> TPunct CHR '']''" by simp_all
    with pa show ?thesis using f by simp
  qed
next
  case (JObject items)
  from JObject.prems(2) obtain n where f: "f = Suc n" by (cases f) auto
  show ?case
  proof (cases "items = []")
    case True
    then show ?thesis using f by simp
  next
    case False
    let ?tk = "\<lambda>(k, v). TString k # TPunct CHR '':'' # toks v"
    let ?ms = "sort_key fst items"
    let ?ts = "join [TPunct CHR '',''] (map ?tk ?ms)"
    have pv: "parse_value g (toks v @ r) = Some (sort_keys v, r)"
      if "(k, v) \<in> set ?ms" "2 * length (toks v) \<le> g" for k v g r
    proof -
      from that(1) have i: "(k, v) \<in> set items" by simp
      then have "distinct_keys v" using JObject.prems(1) by (auto simp: list_all_iff)
      moreover have "v \<in> Basic_BNFs.snds (k, v)" by simp
      ultimately show ?thesis using JObject.IH [OF i _ _ that(2)] by simp
    qed
    have ne: "?ms \<noteq> []" using False by (metis length_0_conv length_sort)
    have "2 * length ?ts + 1 \<le> n" using JObject.prems(2) f by simp
    from parse_object_toks [OF pv ne this]
    have po: "parse_object n (?ts @ TPunct CHR ''}'' # rest)
                = Some (map (\<lambda>(k, v). (k, sort_keys v)) ?ms, rest)"
      by simp
    obtain k v ms' where ms: "?ms = (k, v) # ms'" using ne by (cases ?ms) auto
    have h: "?ts \<noteq> []" "hd ?ts \<noteq> TPunct CHR ''}''"
      using join_hd [where xs = "map ?tk ?ms" and sep = "[TPunct CHR '','']"] ms
      by simp_all
    then have h': "?ts @ TPunct CHR ''}'' # rest \<noteq> []"
      "hd (?ts @ TPunct CHR ''}'' # rest) \<noteq> TPunct CHR ''}''" by simp_all
    have "distinct (map fst (map (\<lambda>(k, v). (k, sort_keys v)) ?ms))"
      using JObject.prems(1) by (simp add: comp_def case_prod_unfold distinct_map)
    then have d: "dict_of (map (\<lambda>(k, v). (k, sort_keys v)) ?ms)
                 = JObject (map (\<lambda>(k, v). (k, sort_keys v)) ?ms)"
      by (rule dict_of_distinct)
    show ?thesis using f False h' po d by (simp add: sort_key_map_snd)
  qed
qed

lemma lex_json_dumps: "lex Out (json_dumps v) = Some (toks v)"
  using lex_encode [of "[]" 0 v] by (simp add: json_dumps_def delim_def)

lemma json_loads_tokens:
  assumes "lex Out s = Some (toks v)" "distinct_keys v"
  shows "json_loads s = Some (sort_keys v)"
  using assms parse_value_toks [of v "Suc (2 * length (toks v))" "[]"]
  by (simp add: json_loads_def)

text \<open>The serialized text of a small document, and the same text after the replacements.\<close>

lemma json_dumps_example:
  "json_dumps (JObject [(''b'', JArray [JString ''x'']), (''a'', JObject [])])
   = ''{'' @ NEWLINE # ''  '' @ QUOTE # ''a'' @ QUOTE # '': {},''
     @ NEWLINE # ''  '' @ QUOTE # ''b'' @ QUOTE # '': [''
     @ NEWLINE # ''    '' @ QUOTE # ''x'' @ QUOTE # []
     @ NEWLINE # ''  ]''
     @ NEWLINE # ''}''"
  by code_simp

lemma lockStr_example:
  "lockStr (JObject [(''c'', JObject [(''B'', JObject [(''1'', JArray [JArray [JString ''A'', JString ''1'']])])])])
   = ''{'' @ NEWLINE # ''  '' @ QUOTE # ''c'' @ QUOTE # '': {''
     @ NEWLINE # ''    '' @ QUOTE # ''B'' @ QUOTE # '': {''
     @ NEWLINE # ''      '' @ QUOTE # ''1'' @ QUOTE # '': [''
     @ NEWLINE # ''        [ '' @ QUOTE # ''A'' @ QUOTE # '', '' @ QUOTE # ''1'' @ QUOTE # '' ]''
     @ NEWLINE # ''      ]''
     @ NEWLINE # ''    }''
     @ NEWLINE # ''  }''
     @ NEWLINE # ''}''"
  by code_simp

lemma distinct_keys_example_document: "distinct_keys example_document"
  by code_simp

lemma sort_keys_example_document: "sort_keys example_document = example_document_sorted"
  by code_simp

lemma lockStr_example_document_compacted:
  "lockStr example_document \<noteq> json_dumps example_document"
  by code_simp

text \<open>
  Claim C8. A document is a value made of dictionaries with every key once, lists,
  strings, truth values and null. The text that the command writes for a document, with
  its keys sorted and its short lists on one line, parses, and it parses to the document
  itself with the keys of every dictionary in sorted order: the document up to the order
  of its keys. The replacements are formatting only: the text before them parses to the
  same document, and the two texts have the same tokens.
\<close>

theorem C8_round_trip:
  assumes "distinct_keys v"
  shows "json_loads (lockStr v) = Some (sort_keys v)
       \<and> json_loads (json_dumps v) = Some (sort_keys v)
       \<and> lex Out (lockStr v) = lex Out (json_dumps v)"
proof -
  have l: "lex Out (json_dumps v) = Some (toks v)" by (rule lex_json_dumps)
  then have c: "lex Out (compact (json_dumps v)) = Some (toks v)" by (rule compact_lex)
  from json_loads_tokens [OF c assms] json_loads_tokens [OF l assms] l c
  show ?thesis by (simp add: lockStr_def)
qed

text \<open>
  The example document has every key once; the text written for it differs from the
  text before the replacements, and both parse to the document with its keys sorted.
\<close>

theorem C8_round_trip_witness:
  "distinct_keys example_document
   \<and> lockStr example_document \<noteq> json_dumps example_document
   \<and> json_loads (lockStr example_document) = Some example_document_sorted
   \<and> json_loads (json_dumps example_document) = Some example_document_sorted
   \<and> lex Out (lockStr example_document) = lex Out (json_dumps example_document)"
  using C8_round_trip [of example_document] distinct_keys_example_document
    sort_keys_example_document lockStr_example_document_compacted
  by simp

subsection \<open>Extra arguments\<close>

lemma unknown_extra_arg_is_fatal:
  "unknown_extra_args t specified \<noteq> [] \<Longrightarrow>
   extra_args_stage interactive ask t specified
     = Inl (InvalidExtraArgs (unknown_extra_args t specified))"
  by (simp add: extra_args_stage_def)

text \<open>
  Claim C3 (an unknown extra argument and a flag whose text is not a recognised spelling
  are both fatal before the translator runs). The first half holds
  (\<open>unknown_extra_arg_is_fatal\<close>); the second does not: for the declared flag
  \<^verbatim>\<open>noDev\<close> given as \<^verbatim>\<open>noDev=maybe\<close> the command prints its line on the
  standard error, does not exit, and hands the translator the flag as \<^verbatim>\<open>True\<close>,
  the value of \<^verbatim>\<open>bool("maybe")\<close>.
\<close>

theorem C3_unparsable_flag_is_not_fatal:
  "handle_extra_args False (\<lambda>_. VBool False)
     \<lparr>subsystem = ''nodejs'', ttype = ''pure'', tname = ''package-lock'',
      extraArgs = [(''noDev'', \<lparr>arg_type = ''flag'', arg_default = None\<rparr>)]\<rparr>
     [''noDev=maybe'']
   = Inr ([(''noDev'', VBool True)], [''Invalid value maybe for argument noDev''])"
  by (simp add: handle_extra_args_def extra_args_stage_def unknown_extra_args_def
      flag_of_text_def lower_def lower_char_def assume_defaults_def)

subsection \<open>The translator's parameters\<close>

text \<open>
  The keys of the arguments through the stages of lines 56 to 229: the flags are
  transformed in place, the defaults and the answers are added at the end, in the order
  in which the translator declares them.
\<close>

lemma transform_flags_keys:
  "transform_flags t items st = Inr st' \<Longrightarrow> set (map fst items) \<subseteq> set (map fst (fst st)) \<Longrightarrow>
   map fst (fst st') = map fst (fst st)"
proof (induction t items st rule: transform_flags.induct)
  case (1 t st)
  then show ?case by simp
next
  case (2 t argName argVal items args err)
  from "2.prems"(1) obtain a where a: "map_of (extraArgs t) argName = Some a"
    by (cases "map_of (extraArgs t) argName") auto
  from "2.prems"(2) have k: "argName \<in> set (map fst args)" "set (map fst items) \<subseteq> set (map fst args)"
    by auto
  show ?case
  proof (cases "arg_type a = ''flag''")
    case False
    with "2.IH"(3) [OF a False] "2.prems" a k show ?thesis by simp
  next
    case True
    show ?thesis
    proof (cases "flag_of_text argVal")
      case None
      with "2.IH"(1) [OF a True None] "2.prems" a k True show ?thesis by simp
    next
      case (Some b)
      have u: "map fst (AList.update argName (VBool b) args) = map fst args"
        using k(1) by (simp add: update_keys)
      from "2.IH"(2) [OF a True Some] "2.prems"(1) a k True Some u show ?thesis by simp
    qed
  qed
qed

lemma coerce_flags_keys: "coerce_flags t args = Inr args' \<Longrightarrow> map fst args' = map fst args"
  by (induction t args arbitrary: args' rule: coerce_flags.induct)
    (auto split: option.splits sum.splits)

lemma fold_update_keys:
  "distinct ks \<Longrightarrow> set ks \<inter> set (map fst acc) = {} \<Longrightarrow>
   map fst (fold (\<lambda>n acc. AList.update n (f n) acc) ks acc) = map fst acc @ ks"
proof (induction ks arbitrary: acc)
  case Nil
  show ?case by simp
next
  case (Cons k ks)
  from Cons.prems have u: "map fst (AList.update k (f k) acc) = map fst acc @ [k]"
    by (auto simp: update_keys)
  from Cons.prems have "distinct ks" "set ks \<inter> set (map fst (AList.update k (f k) acc)) = {}"
    by (auto simp: u)
  from Cons.IH [OF this] u show ?case by simp
qed

lemma fold_update_pairs_keys:
  "distinct (map fst ps) \<Longrightarrow> set (map fst ps) \<inter> set (map fst acc) = {} \<Longrightarrow>
   map fst (fold (\<lambda>(n, v) acc. AList.update n (g v) acc) ps acc) = map fst acc @ map fst ps"
proof (induction ps arbitrary: acc)
  case Nil
  show ?case by simp
next
  case (Cons p ps)
  obtain k v where p: "p = (k, v)" by (cases p)
  from Cons.prems p have u: "map fst (AList.update k (g v) acc) = map fst acc @ [k]"
    by (auto simp: update_keys)
  from Cons.prems p have "distinct (map fst ps)"
    "set (map fst ps) \<inter> set (map fst (AList.update k (g v) acc)) = {}"
    by (auto simp: u)
  from Cons.IH [OF this] u p show ?case by simp
qed

lemma assume_defaults_keys:
  assumes "distinct (map fst (extraArgs t))"
  shows "map fst (assume_defaults t args)
         = map fst args
           @ map fst (filter (\<lambda>(n, v). n \<notin> set (map fst args) \<and> arg_default v \<noteq> None) (extraArgs t))"
  unfolding assume_defaults_def
proof (rule fold_update_pairs_keys)
  show "distinct (map fst (filter (\<lambda>(n, v). n \<notin> set (map fst args) \<and> arg_default v \<noteq> None)
          (extraArgs t)))"
    using assms by (rule distinct_map_filter)
  show "set (map fst (filter (\<lambda>(n, v). n \<notin> set (map fst args) \<and> arg_default v \<noteq> None)
          (extraArgs t))) \<inter> set (map fst args) = {}"
    by force
qed

lemma extra_args_stage_keys:
  assumes "extra_args_stage interactive ask t specified = Inr (args, err)"
    and d: "distinct (map fst (extraArgs t))"
  shows "map fst args
         = map fst specified @ filter (\<lambda>n. n \<notin> set (map fst specified)) (map fst (extraArgs t))"
proof -
  from assms(1) obtain args0 err0 args1 where
    tf: "transform_flags t specified (map (\<lambda>(k, v). (k, VStr v)) specified, []) = Inr (args0, err0)"
    and cf: "coerce_flags t args0 = Inr args1"
    by (auto simp: extra_args_stage_def split: if_splits sum.splits)
  from transform_flags_keys [OF tf] have "map fst args0 = map fst specified"
    by (simp add: comp_def case_prod_unfold)
  with coerce_flags_keys [OF cf] have k1: "map fst args1 = map fst specified" by simp
  let ?args2 = "if interactive then args1 else assume_defaults t args1"
  let ?unspecified = "filter (\<lambda>n. n \<notin> set (map fst ?args2)) (map fst (extraArgs t))"
  from assms(1) tf cf have r:
    "(if ?unspecified = [] then Inr (?args2, err0)
      else if \<not> interactive then Inl (MissingExtraArgs ?unspecified)
      else Inr (fold (\<lambda>n acc. AList.update n (ask n) acc) ?unspecified ?args2, err0))
     = (Inr (args, err) :: error + (string \<times> argval) list \<times> string list)"
    by (simp add: extra_args_stage_def Let_def split: if_splits)
  show ?thesis
  proof (cases interactive)
    case True
    show ?thesis
    proof (cases "?unspecified = []")
      case e: True
      with r True have "args = args1" by simp
      with e True k1 show ?thesis by simp
    next
      case e: False
      with r True have a: "args = fold (\<lambda>n acc. AList.update n (ask n) acc) ?unspecified args1"
        by simp
      have "map fst args = map fst args1 @ ?unspecified"
        unfolding a using True d
        by (intro fold_update_keys [where acc = args1, simplified True if_True]) auto
      with True k1 show ?thesis by simp
    qed
  next
    case False
    let ?F = "filter (\<lambda>(n, v). n \<notin> set (map fst args1) \<and> arg_default v \<noteq> None) (extraArgs t)"
    have k2: "map fst (assume_defaults t args1) = map fst args1 @ map fst ?F"
      by (rule assume_defaults_keys [OF d])
    from r False have e: "?unspecified = []" and a: "args = assume_defaults t args1"
      by (auto split: if_splits)
    have "?F = filter (\<lambda>(n, v). n \<notin> set (map fst args1)) (extraArgs t)"
    proof (rule filter_cong [OF refl], clarify)
      fix n v
      assume nv: "(n, v) \<in> set (extraArgs t)"
      show "(n \<notin> set (map fst args1) \<and> arg_default v \<noteq> None) = (n \<notin> set (map fst args1))"
      proof (cases "n \<in> set (map fst args1)")
        case True
        then show ?thesis by simp
      next
        case n: False
        from nv have "n \<in> set (map fst (extraArgs t))" by force
        with e False have "n \<in> set (map fst (assume_defaults t args1))"
          by (auto simp: filter_empty_conv)
        with k2 n obtain v' where v': "(n, v') \<in> set (extraArgs t)" "arg_default v' \<noteq> None"
          by auto
        from d nv v'(1) have "v' = v" by (meson eq_key_imp_eq_value)
        with v'(2) n show ?thesis by simp
      qed
    qed
    then have "map fst ?F = filter (\<lambda>n. n \<notin> set (map fst args1)) (map fst (extraArgs t))"
      by (simp add: filter_map comp_def case_prod_unfold)
    with k2 a k1 show ?thesis by simp
  qed
qed

lemma remdups_later_occurrence:
  "k \<in> set ys \<Longrightarrow> remdups (xs @ k # ys) = remdups (xs @ ys)"
  by (induction xs) auto

lemma parse_extra_args_keys:
  "parse_extra_args raw acc = Inr specified \<Longrightarrow> distinct (map fst acc) \<Longrightarrow>
   map fst specified
   = rev (remdups (rev (map fst acc @ map (\<lambda>e. hd (split_on CHR ''='' e)) raw)))"
proof (induction raw arbitrary: acc)
  case Nil
  then show ?case by (simp add: distinct_remdups_id)
next
  case (Cons e es)
  from Cons.prems(1) obtain k v rest where s: "split_on CHR ''='' e = k # v # rest"
    by (auto split: list.splits)
  with Cons.prems(1) have p: "parse_extra_args es (AList.update k v acc) = Inr specified" by simp
  from Cons.prems(2) have d: "distinct (map fst (AList.update k v acc))"
    by (rule distinct_update)
  let ?K = "map (\<lambda>e. hd (split_on CHR ''='' e)) es"
  have "remdups (rev (map fst (AList.update k v acc) @ ?K))
        = remdups (rev (map fst acc @ k # ?K))"
  proof (cases "k \<in> set (map fst acc)")
    case True
    then have "k \<in> set (rev (map fst acc))" by simp
    from remdups_later_occurrence [OF this, of "rev ?K"] True show ?thesis
      by (simp add: update_keys)
  next
    case False
    then show ?thesis by (simp add: update_keys)
  qed
  with Cons.IH [OF p d] s show ?case by simp
qed

lemma translator_params_eq:
  "translator_params t combined args =
     ''--translator '' @ translator_identity t @ (if combined then '' --combined'' else [])
       @ concat (map (\<lambda>(n, v). '' --arg '' @ n @ ''='' @ str_of_argval v) args)"
  by (simp add: translator_params_def translator_identity_def join_prefixed comp_def
      case_prod_unfold)

text \<open>
  Claim C4 as stated (the extra arguments are iterated in a fixed sorted order, so that
  the same arguments give the same string in whatever order they are supplied) fails:
  for the arguments \<^verbatim>\<open>b=2\<close> and \<^verbatim>\<open>a=1\<close>, supplied in this order, the
  \<^verbatim>\<open>translatorParams\<close> of the lock the command ends with lists \<^verbatim>\<open>b\<close> before
  \<^verbatim>\<open>a\<close>; the same arguments supplied in the other order give another string,
  which is the one of the sorted order.
\<close>

theorem C4_sorted_order_counterexample:
  "(case fst (handle options_b_a environment_two_args None) of
      Inl e \<Rightarrow> None
    | Inr lock \<Rightarrow> translatorParams (generic lock))
   = Some ''--translator nodejs.pure.package-lock --arg b=2 --arg a=1''
   \<and> (case fst (handle options_a_b environment_two_args None) of
         Inl e \<Rightarrow> None
       | Inr lock \<Rightarrow> translatorParams (generic lock))
      = Some ''--translator nodejs.pure.package-lock --arg a=1 --arg b=2''
   \<and> spec_translator_params translator_two_args False [(''b'', VStr ''2''), (''a'', VStr ''1'')]
      = ''--translator nodejs.pure.package-lock --arg a=1 --arg b=2''"
  by code_simp

text \<open>
  Claim C4, amended: line 267 sets \<^verbatim>\<open>translatorParams\<close> to the word
  \<^verbatim>\<open>--translator\<close>, the identity of the translator, the word \<^verbatim>\<open>--combined\<close>
  when the flag is set, and then one \<^verbatim>\<open>--arg key=value\<close> for each extra argument,
  in the order of insertion of the final mapping of the arguments; the words are
  separated by one space. This is the value in the lock that the command ends with and
  writes to the output location, for the arguments that lines 56 to 229 produce. Their
  order is the order of the command line, each key where it is given first (the list of
  the keys without its later repetitions), followed by the arguments that were not
  given, in the order in which the translator declares them, each once. In the mode of
  the combined hash this is for a function that strips the hashes and leaves
  \<^verbatim>\<open>translatorParams\<close> alone.
\<close>

theorem C4_translator_params_insertion_order:
  "translatorParams (generic (write_translator_info t combined args lock))
     = Some (''--translator '' @ translator_identity t @ (if combined then '' --combined'' else [])
             @ concat (map (\<lambda>(n, v). '' --arg '' @ n @ ''='' @ str_of_argval v) args))
   \<and> (\<forall>lock' dir'.
        handle opts w dir0 = (Inr lock', dir') \<longrightarrow>
        (opt_combined opts \<longrightarrow>
           (\<forall>l. translatorParams (generic (env_strip_hashes w l)) = translatorParams (generic l))) \<longrightarrow>
        (\<exists>t specified args err.
            env_translator w = Inr t
          \<and> parse_extra_args (opt_arg opts) [] = Inr specified
          \<and> handle_extra_args (env_interactive w) (env_ask w) t (opt_arg opts) = Inr (args, err)
          \<and> map fst specified
              = rev (remdups (rev (map (\<lambda>e. hd (split_on CHR ''='' e)) (opt_arg opts))))
          \<and> (distinct (map fst (extraArgs t)) \<longrightarrow>
               map fst args
               = map fst specified
                 @ filter (\<lambda>n. n \<notin> set (map fst specified)) (map fst (extraArgs t)))
          \<and> translatorParams (generic lock')
              = Some (''--translator '' @ translator_identity t
                      @ (if opt_combined opts then '' --combined'' else [])
                      @ concat (map (\<lambda>(n, v). '' --arg '' @ n @ ''='' @ str_of_argval v) args))
          \<and> lock_file dir' = Some (Canonical, lock')))"
proof (intro conjI allI impI)
  show "translatorParams (generic (write_translator_info t combined args lock))
     = Some (''--translator '' @ translator_identity t @ (if combined then '' --combined'' else [])
             @ concat (map (\<lambda>(n, v). '' --arg '' @ n @ ''='' @ str_of_argval v) args))"
    by (simp add: write_translator_info_def translator_params_eq)
next
  fix lock' dir'
  assume h: "handle opts w dir0 = (Inr lock', dir')"
    and st: "opt_combined opts \<longrightarrow>
           (\<forall>l. translatorParams (generic (env_strip_hashes w l)) = translatorParams (generic l))"
  from handle_success [OF h] obtain sourceSpec t args err dir1 out where
    b: "before_translator opts w dir0 = Inr (sourceSpec, t, args, err, dir1)"
    and rw: "rewrite_dream_lock t (opt_combined opts) args sourceSpec (env_strip_hashes w)
               (env_fod_log w) (env_checkLockJSON w)
               (env_run_translator w args (dream_lock_json dir1)) = (Inr lock', out)"
    and out: "lock_file dir' = out"
    by blast
  note bs = before_translator_succeeds [OF b]
  from bs(3) obtain specified where
    p: "parse_extra_args (opt_arg opts) [] = Inr specified"
    and es: "extra_args_stage (env_interactive w) (env_ask w) t specified = Inr (args, err)"
    by (auto simp: handle_extra_args_def split: sum.splits)
  from rewrite_dream_lock_success [OF rw] obtain l lock0 lock1 where
    c: "clean_up_dependency_graph
          (add_main_source sourceSpec (write_translator_info t (opt_combined opts) args lock0))
        = Inr lock1"
    and l2: "opt_combined opts \<longrightarrow>
             (\<exists>hash. lock' = (stripped_lock (env_strip_hashes w) lock1)
                                 \<lparr>generic := (generic (stripped_lock (env_strip_hashes w) lock1))
                                    \<lparr>sourcesCombinedHash := Some hash\<rparr>\<rparr>)"
      "\<not> opt_combined opts \<longrightarrow> lock' = lock1"
    and o: "out = Some (Canonical, lock')"
    by blast
  from clean_up_generic [OF c]
  have "translatorParams (generic lock1) = Some (translator_params t (opt_combined opts) args)"
    by (simp add: add_main_source_def write_translator_info_def Let_def)
  with l2 st have "translatorParams (generic lock') = Some (translator_params t (opt_combined opts) args)"
    by (cases "opt_combined opts") (auto simp: stripped_lock_def)
  then have tp: "translatorParams (generic lock')
              = Some (''--translator '' @ translator_identity t
                      @ (if opt_combined opts then '' --combined'' else [])
                      @ concat (map (\<lambda>(n, v). '' --arg '' @ n @ ''='' @ str_of_argval v) args))"
    by (simp only: translator_params_eq)
  have k1: "map fst specified
              = rev (remdups (rev (map (\<lambda>e. hd (split_on CHR ''='' e)) (opt_arg opts))))"
    using parse_extra_args_keys [OF p] by simp
  have k2: "distinct (map fst (extraArgs t)) \<longrightarrow>
               map fst args
               = map fst specified
                 @ filter (\<lambda>n. n \<notin> set (map fst specified)) (map fst (extraArgs t))"
    using extra_args_stage_keys [OF es] by blast
  from bs(2) p bs(3) k1 k2 tp out o
  show "\<exists>t specified args err.
            env_translator w = Inr t
          \<and> parse_extra_args (opt_arg opts) [] = Inr specified
          \<and> handle_extra_args (env_interactive w) (env_ask w) t (opt_arg opts) = Inr (args, err)
          \<and> map fst specified
              = rev (remdups (rev (map (\<lambda>e. hd (split_on CHR ''='' e)) (opt_arg opts))))
          \<and> (distinct (map fst (extraArgs t)) \<longrightarrow>
               map fst args
               = map fst specified
                 @ filter (\<lambda>n. n \<notin> set (map fst specified)) (map fst (extraArgs t)))
          \<and> translatorParams (generic lock')
              = Some (''--translator '' @ translator_identity t
                      @ (if opt_combined opts then '' --combined'' else [])
                      @ concat (map (\<lambda>(n, v). '' --arg '' @ n @ ''='' @ str_of_argval v) args))
          \<and> lock_file dir' = Some (Canonical, lock')"
    by blast
qed

text \<open>
  The theorem of claim C4 at the command line \<^verbatim>\<open>--arg b=2 --arg a=1\<close>.
\<close>

theorem C4_translator_params_insertion_order_witness:
  "handle_extra_args False (\<lambda>n. VBool False) translator_two_args [''b=2'', ''a=1'']
     = Inr ([(''b'', VStr ''2''), (''a'', VStr ''1'')], [])
   \<and> (\<exists>lock dir.
        handle options_b_a environment_two_args None = (Inr lock, dir)
      \<and> lock_file dir = Some (Canonical, lock)
      \<and> translatorParams (generic lock)
          = Some ''--translator nodejs.pure.package-lock --arg b=2 --arg a=1'')"
proof -
  have ea: "handle_extra_args False (\<lambda>n. VBool False) translator_two_args [''b=2'', ''a=1'']
     = Inr ([(''b'', VStr ''2''), (''a'', VStr ''1'')], [])"
    by code_simp
  have "case fst (handle options_b_a environment_two_args None) of
          Inl e \<Rightarrow> False | Inr lock \<Rightarrow> True"
    by code_simp
  then obtain lock dir where h: "handle options_b_a environment_two_args None = (Inr lock, dir)"
    by (cases "handle options_b_a environment_two_args None") (auto split: sum.splits)
  have e: "env_translator environment_two_args = Inr translator_two_args"
    "env_interactive environment_two_args = False"
    "env_ask environment_two_args = (\<lambda>n. VBool False)"
    "opt_arg options_b_a = [''b=2'', ''a=1'']" "\<not> opt_combined options_b_a"
    by (simp_all add: environment_two_args_def example_environment_def options_b_a_def)
  from C4_translator_params_insertion_order [of _ _ _ _ options_b_a environment_two_args None] h e(5)
  obtain t specified args err where
    "env_translator environment_two_args = Inr t"
    "handle_extra_args (env_interactive environment_two_args) (env_ask environment_two_args) t
       (opt_arg options_b_a) = Inr (args, err)"
    "translatorParams (generic lock)
       = Some (''--translator '' @ translator_identity t
               @ (if opt_combined options_b_a then '' --combined'' else [])
               @ concat (map (\<lambda>(n, v). '' --arg '' @ n @ ''='' @ str_of_argval v) args))"
    "lock_file dir = Some (Canonical, lock)"
    by blast
  with e ea have "translatorParams (generic lock)
          = Some ''--translator nodejs.pure.package-lock --arg b=2 --arg a=1''"
    "lock_file dir = Some (Canonical, lock)"
    by (auto simp: translator_identity_def translator_two_args_def)
  with h ea show ?thesis by blast
qed

end
